theory Spec2Isabelle
  imports Complex_Main "HOL-Library.AList"
begin

section \<open>Cells of the autocatalysis model (AC\_Cells.py)\<close>

text \<open>
  A shallow embedding of the class \<open>Cell\<close> of \<^verbatim>\<open>AC_Cells.py\<close>. A method that
  mutates a cell takes the cell and returns the updated cell. A method that can raise
  returns \<open>error + result\<close>, with \<open>Inl\<close> for the exception; the state reached at a raise
  is not kept (the exceptions modelled here are never caught by a caller). A bare
  \<^verbatim>\<open>try: ... except:\<close> of the source is the branch on the condition under which its
  body raises. Printed messages are left out. The methods embedded are the storage of
  products, the rule bookkeeping, the random selections, \<^verbatim>\<open>reproduce_active_rule\<close>
  and \<^verbatim>\<open>receive_product\<close>; \<^verbatim>\<open>chain_step\<close> and the accessors of the location
  are not needed by the properties below.
\<close>

subsection \<open>Exceptions\<close>

datatype error = TypeError | KeyError | ValueError | NameError | AttributeError

subsection \<open>Dictionaries\<close>

text \<open>
  A Python dictionary is an association list with one entry per key: \<open>map_of\<close> is the
  lookup, \<open>AList.update\<close> the assignment \<^verbatim>\<open>d[k] = v\<close> (in place for a key that is
  there, a new entry otherwise), \<open>AList.delete\<close> is \<^verbatim>\<open>d.pop(k)\<close>, \<open>map fst\<close> is
  \<^verbatim>\<open>d.keys()\<close>. The order of the entries stands for the order in which the
  interpreter enumerates the keys.
\<close>

type_synonym ('k, 'v) dict = "('k \<times> 'v) list"

subsection \<open>Rules, aggregates and products (module AC\_ProductRules)\<close>

text \<open>
  Modelled from the spec: the classes \<open>ProductRule\<close>, \<open>ProductNetRule\<close> and the product
  class live in modules that are not part of the source at hand. A rule is an immutable
  (input type, output type) pair with an identity (the field \<open>rule_ident\<close> stands for the
  identity of the Python object, so that \<^verbatim>\<open>in\<close> and \<^verbatim>\<open>list.remove\<close> compare
  instances); its name is its (input, output) pair, the key of the aggregate index.
\<close>

record ProductRule =
  rule_ident :: nat
  rule_input :: int
  rule_output :: int

definition new_ProductRule :: "nat \<Rightarrow> int \<Rightarrow> int \<Rightarrow> ProductRule" where
  "new_ProductRule ident i out = \<lparr>rule_ident = ident, rule_input = i, rule_output = out\<rparr>"

definition get_input :: "ProductRule \<Rightarrow> int" where
  "get_input r = rule_input r"

definition get_output :: "ProductRule \<Rightarrow> int" where
  "get_output r = rule_output r"

definition get_name :: "ProductRule \<Rightarrow> int \<times> int" where
  "get_name r = (rule_input r, rule_output r)"

text \<open>
  Modelled from the spec: the aggregate ("net rule") of one (input, output) pair on one
  cell: its owner and the count of instances, which \<open>add_to_count\<close> increments and
  \<open>subtract_from_count\<close> decrements.
\<close>

record ProductNetRule =
  nr_input :: int
  nr_output :: int
  nr_owner :: "nat option"
  nr_count :: int

definition new_ProductNetRule :: "int \<Rightarrow> int \<Rightarrow> int \<Rightarrow> ProductNetRule" where
  "new_ProductNetRule i out n = \<lparr>nr_input = i, nr_output = out, nr_owner = None, nr_count = n\<rparr>"

definition add_to_count :: "ProductNetRule \<Rightarrow> ProductNetRule" where
  "add_to_count n = n\<lparr>nr_count := nr_count n + 1\<rparr>"

definition subtract_from_count :: "ProductNetRule \<Rightarrow> ProductNetRule" where
  "subtract_from_count n = n\<lparr>nr_count := nr_count n - 1\<rparr>"

definition set_owner :: "ProductNetRule \<Rightarrow> nat \<Rightarrow> ProductNetRule" where
  "set_owner n c = n\<lparr>nr_owner := Some c\<rparr>"

text \<open>
  Modelled from the spec: a product (token) has an identity and a current type.
\<close>

record Product =
  prod_ident :: nat
  prod_type :: int

definition get_type :: "Product \<Rightarrow> int" where
  "get_type p = prod_type p"

subsection \<open>The random number generator\<close>

text \<open>
  The generator is Python's \<^verbatim>\<open>random.Random\<close>, handed to each cell. Of
  \<^verbatim>\<open>RNG.sample(xs, 1)[0]\<close> the model keeps that it raises \<open>ValueError\<close> on an empty
  population and otherwise returns the element at an index the generator chooses: the
  generator is the sequence of its future draws, a draw \<open>d\<close> selecting the index
  \<open>d mod length xs\<close>.
\<close>

type_synonym RNG = "nat \<Rightarrow> nat"

definition advance :: "RNG \<Rightarrow> RNG" where
  "advance g = (\<lambda>n. g (Suc n))"

definition sample1 :: "RNG \<Rightarrow> 'a list \<Rightarrow> error + ('a \<times> RNG)" where
  "sample1 g xs =
     (if xs = [] then Inl ValueError
      else Inr (xs ! (g 0 mod length xs), advance g))"

text \<open>
  The probability that a uniform draw from the list \<open>xs\<close> (every index equally likely)
  yields an element that satisfies \<open>P\<close>.
\<close>

definition uniform_prob :: "'a list \<Rightarrow> ('a \<Rightarrow> bool) \<Rightarrow> real" where
  "uniform_prob xs P = real (length (filter P xs)) / real (length xs)"

subsection \<open>The cell\<close>

text \<open>
  The fields of \<^verbatim>\<open>Cell.__init__\<close>. Other cells are referred to by their position in
  the network's list of cells. The shared objects of the source (\<^verbatim>\<open>urn\<close>,
  \<^verbatim>\<open>productRule_Net\<close>, \<^verbatim>\<open>cellNet\<close>, \<^verbatim>\<open>RNG\<close>) are fields of the network state
  below.
\<close>

record Cell =
  isAlive :: bool
  location :: "int \<times> int"
  neighbors :: "nat list"
  product_rules :: "(int, (int, ProductRule list) dict) dict"
  product_netrules :: "(int \<times> int, ProductNetRule) dict"
  products :: "(int, Product list) dict"
  count_rules :: int
  active_rule :: "ProductRule option"
  cell_id :: nat
  repro_type :: string
  intel :: bool
  topology :: string

definition new_Cell :: "nat \<Rightarrow> bool \<Rightarrow> string \<Rightarrow> string \<Rightarrow> Cell" where
  "new_Cell i selective_intelligence reproduction_type topo =
     \<lparr>isAlive = True, location = (-1, -1), neighbors = [], product_rules = [],
      product_netrules = [], products = [], count_rules = 0, active_rule = None,
      cell_id = i, repro_type = reproduction_type, intel = selective_intelligence,
      topology = topo\<rparr>"

text \<open>
  The calls a cell makes on the global registry \<^verbatim>\<open>productRule_Net\<close>, whose code is
  not part of the source at hand: the registry is the list of the calls it has received.
\<close>

datatype net_event =
    Add_ProductNetRule ProductNetRule
  | Remove_ProductNetRule "ProductNetRule option" int

subsection \<open>Product storage\<close>

definition add_Product :: "Cell \<Rightarrow> Product \<Rightarrow> Cell" where
  "add_Product c product =
     (case map_of (products c) (get_type product) of
        Some stack \<Rightarrow>
          c\<lparr>products := AList.update (get_type product) (stack @ [product]) (products c)\<rparr>
      | None \<Rightarrow>
          c\<lparr>products := AList.update (get_type product) [product] (products c)\<rparr>)"

definition remove_Product :: "Cell \<Rightarrow> int \<Rightarrow> Cell \<times> Product option" where
  "remove_Product c t =
     (if t \<in> set (map fst (products c)) then
        (case map_of (products c) t of
           Some stack \<Rightarrow>
             (if stack \<noteq> [] then
                (c\<lparr>products := AList.update t (butlast stack) (products c)\<rparr>, Some (last stack))
              else (c, None))
         | None \<Rightarrow> (c, None))
      else (c, None))"

text \<open>
  The loop of \<^verbatim>\<open>has_Product\<close> over \<^verbatim>\<open>self.products.keys()\<close>: the keys are listed
  before the loop starts, the dictionary is assigned to inside it.
\<close>

fun has_Product_loop ::
  "int list \<Rightarrow> int list \<Rightarrow> (int, Product list) dict \<Rightarrow> Product list \<Rightarrow>
   error + ((int, Product list) dict \<times> Product list)" where
  "has_Product_loop rule_keys [] prods has = Inr (prods, has)"
| "has_Product_loop rule_keys (content # rest) prods has =
     (if content \<in> set rule_keys then
        (case map_of prods content of
           None \<Rightarrow> Inl KeyError
         | Some stack \<Rightarrow> has_Product_loop rule_keys rest prods (has @ stack))
      else has_Product_loop rule_keys rest (AList.update content [] prods) has)"

definition has_Product :: "Cell \<Rightarrow> RNG \<Rightarrow> error + (Cell \<times> int option \<times> RNG)" where
  "has_Product c g =
     (case has_Product_loop (map fst (product_rules c)) (map fst (products c)) (products c) [] of
        Inl e \<Rightarrow> Inl e
      | Inr (prods, has) \<Rightarrow>
          (case sample1 g has of
             Inr (p, g') \<Rightarrow> Inr (c\<lparr>products := prods\<rparr>, Some (get_type p), g')
           | Inl e \<Rightarrow> Inr (c\<lparr>products := prods\<rparr>, None, g)))"

datatype product_arg = ByType int | ByProduct Product

definition has_rule :: "Cell \<Rightarrow> product_arg \<Rightarrow> bool" where
  "has_rule c a =
     (case a of
        ByType t \<Rightarrow> (if t \<in> set (map fst (product_rules c)) then True else False)
      | ByProduct p \<Rightarrow> (if get_type p \<in> set (map fst (product_rules c)) then True else False))"

subsection \<open>Rule bookkeeping\<close>

text \<open>
  The argument of \<^verbatim>\<open>add_ProductRule\<close> is any Python object; the \<^verbatim>\<open>isinstance\<close>
  test tells a rule from anything else.
\<close>

datatype pyobj = RuleObj ProductRule | OtherObj

definition add_ProductNetRule ::
  "Cell \<Rightarrow> net_event list \<Rightarrow> pyobj \<Rightarrow> error + (Cell \<times> net_event list)" where
  "add_ProductNetRule c net a =
     (case a of
        OtherObj \<Rightarrow> Inl TypeError
      | RuleObj r \<Rightarrow>
          (case map_of (product_netrules c) (get_name r) of
             Some n \<Rightarrow>
               Inr (c\<lparr>product_netrules :=
                        AList.update (get_name r) (add_to_count n) (product_netrules c)\<rparr>, net)
           | None \<Rightarrow>
               (let new = set_owner (new_ProductNetRule (get_input r) (get_output r) 1) (cell_id c)
                in Inr (c\<lparr>product_netrules := AList.update (get_name r) new (product_netrules c)\<rparr>,
                        net @ [Add_ProductNetRule new]))))"

definition add_ProductRule ::
  "Cell \<Rightarrow> net_event list \<Rightarrow> pyobj \<Rightarrow> error + (Cell \<times> net_event list)" where
  "add_ProductRule c net a =
     (case a of
        OtherObj \<Rightarrow> Inl TypeError
      | RuleObj r \<Rightarrow>
          (let inp = get_input r; out = get_output r;
               c1 = (case map_of (product_rules c) inp of
                       Some inner \<Rightarrow>
                         (case map_of inner out of
                            Some bucket \<Rightarrow>
                              c\<lparr>product_rules :=
                                  AList.update inp (AList.update out (bucket @ [r]) inner)
                                    (product_rules c)\<rparr>
                          | None \<Rightarrow>
                              c\<lparr>product_rules :=
                                  AList.update inp (AList.update out [r] inner) (product_rules c)\<rparr>)
                     | None \<Rightarrow>
                         c\<lparr>product_rules :=
                             AList.update inp (AList.update out [r] []) (product_rules c)\<rparr>)
           in (case (case map_of (product_netrules c1) (get_name r) of
                       Some n \<Rightarrow>
                         Inr (c1\<lparr>product_netrules :=
                                   AList.update (get_name r) (add_to_count n) (product_netrules c1)\<rparr>,
                              net)
                     | None \<Rightarrow> add_ProductNetRule c1 net (RuleObj r)) of
                 Inl e \<Rightarrow> Inl e
               | Inr (c2, net') \<Rightarrow> Inr (c2\<lparr>count_rules := count_rules c2 + 1\<rparr>, net'))))"

text \<open>
  \<^verbatim>\<open>remove_ProductRule\<close> reads the step counter \<^verbatim>\<open>self.cellNet.master_count\<close>,
  the argument \<open>master\<close>.
\<close>

definition remove_ProductRule ::
  "Cell \<Rightarrow> net_event list \<Rightarrow> int \<Rightarrow> ProductRule \<Rightarrow> error + (Cell \<times> net_event list)" where
  "remove_ProductRule c net master r =
     (let inp = get_input r; out = get_output r in
      case map_of (product_rules c) inp of
        None \<Rightarrow> Inl KeyError
      | Some inner \<Rightarrow>
          (case map_of inner out of
             None \<Rightarrow> Inl KeyError
           | Some bucket \<Rightarrow>
               if r \<notin> set bucket then Inl ValueError
               else
                 (let bucket' = remove1 r bucket;
                      inner1 = AList.update out bucket' inner;
                      rules1 = AList.update inp inner1 (product_rules c)
                  in case map_of (product_netrules c) (get_name r) of
                       None \<Rightarrow> Inl KeyError
                     | Some n \<Rightarrow>
                         (let nets1 = AList.update (get_name r) (subtract_from_count n)
                                        (product_netrules c);
                              cnt = count_rules c - 1
                          in if bucket' = [] then
                               (let rule = map_of nets1 (get_name r);
                                    nets2 = AList.delete (get_name r) nets1;
                                    net' = net @ [Remove_ProductNetRule rule master];
                                    inner2 = AList.delete out inner1;
                                    rules2 = (if inner2 = [] then AList.delete inp rules1
                                              else AList.update inp inner2 rules1)
                                in Inr (c\<lparr>product_rules := rules2, product_netrules := nets2,
                                          count_rules := cnt\<rparr>, net'))
                             else
                               Inr (c\<lparr>product_rules := rules1, product_netrules := nets1,
                                      count_rules := cnt\<rparr>, net)))))"

definition set_active_rule :: "Cell \<Rightarrow> ProductRule \<Rightarrow> error + Cell" where
  "set_active_rule c rule =
     (case map_of (product_rules c) (get_input rule) of
        None \<Rightarrow> Inl KeyError
      | Some inner \<Rightarrow>
          (case map_of inner (get_output rule) of
             None \<Rightarrow> Inl KeyError
           | Some bucket \<Rightarrow>
               if rule \<in> set bucket then Inr (c\<lparr>active_rule := Some rule\<rparr>)
               else Inl NameError))"

subsection \<open>Random selection\<close>

definition add_neighbor :: "Cell \<Rightarrow> nat \<Rightarrow> Cell" where
  "add_neighbor c neighbor = c\<lparr>neighbors := neighbors c @ [neighbor]\<rparr>"

definition get_random_neighbor :: "Cell \<Rightarrow> RNG \<Rightarrow> nat option \<Rightarrow> error + (nat \<times> RNG)" where
  "get_random_neighbor c g who =
     (case who of
        None \<Rightarrow> sample1 g (neighbors c)
      | Some w \<Rightarrow>
          if w \<in> set (neighbors c) then
            (let copy_neighbors = neighbors c;
                 copy_neighbors = (if w \<in> set copy_neighbors then remove1 w copy_neighbors
                                   else copy_neighbors)
             in sample1 g copy_neighbors)
          else Inl TypeError)"

text \<open>
  The candidates of \<^verbatim>\<open>get_random_rule\<close>: the three nested loops append every
  instance of every bucket, in the order of the keys.
\<close>

definition rules_of_inner :: "(int, ProductRule list) dict \<Rightarrow> ProductRule list" where
  "rules_of_inner inner = concat (map snd inner)"

definition all_rules :: "Cell \<Rightarrow> ProductRule list" where
  "all_rules c = concat (map (\<lambda>entry. rules_of_inner (snd entry)) (product_rules c))"

definition get_random_rule :: "Cell \<Rightarrow> RNG \<Rightarrow> error + (ProductRule \<times> RNG)" where
  "get_random_rule c g = sample1 g (all_rules c)"

definition get_random_rule_of_type :: "Cell \<Rightarrow> RNG \<Rightarrow> int \<Rightarrow> error + (ProductRule \<times> RNG)" where
  "get_random_rule_of_type c g t =
     (case map_of (product_rules c) t of
        None \<Rightarrow> Inl KeyError
      | Some inner \<Rightarrow> sample1 g (rules_of_inner inner))"

subsection \<open>The network: reproduction and the receive phase\<close>

text \<open>
  The objects the cells share: the list of cells (a cell is referred to by its position),
  the step counter \<^verbatim>\<open>master_count\<close> and \<^verbatim>\<open>last_added_rule\<close> of \<^verbatim>\<open>cellNet\<close>, the
  calls received by the registry \<^verbatim>\<open>productRule_Net\<close> and by the pool \<^verbatim>\<open>urn\<close>
  (\<^verbatim>\<open>return_product\<close>), the generator, and the identity the next rule object gets.
  Cell references are positions below \<open>length (cells w)\<close>, as every reference of the
  source is a live object.
\<close>

record Net =
  cells :: "Cell list"
  master_count :: int
  last_added_rule :: int
  productRule_Net :: "net_event list"
  urn :: "Product list"
  generator :: RNG
  next_ident :: nat

definition network_rules :: "Cell list \<Rightarrow> (nat \<times> ProductRule) list" where
  "network_rules cs = concat (map (\<lambda>i. map (Pair i) (all_rules (cs ! i))) [0..<length cs])"

text \<open>
  Modelled from the spec: \<^verbatim>\<open>remove_random_rule\<close> is a method of the network class,
  whose code is not part of the source at hand. By the spec it removes one rule instance
  drawn uniformly at random from the instances of the entire network (on any cell, the
  reproducing one included), and routes the removal through \<^verbatim>\<open>remove_ProductRule\<close> of
  the cell that owns the instance.
\<close>

definition remove_random_rule :: "Net \<Rightarrow> error + Net" where
  "remove_random_rule w =
     (case sample1 (generator w) (network_rules (cells w)) of
        Inl e \<Rightarrow> Inl e
      | Inr ((owner, rule), g') \<Rightarrow>
          (case remove_ProductRule (cells w ! owner) (productRule_Net w) (master_count w) rule of
             Inl e \<Rightarrow> Inl e
           | Inr (c', net') \<Rightarrow>
               Inr (w\<lparr>cells := (cells w)[owner := c'], productRule_Net := net',
                       generator := g'\<rparr>)))"

text \<open>
  The state in which \<^verbatim>\<open>reproduce_active_rule\<close> calls \<^verbatim>\<open>remove_random_rule\<close>:
  the cell has added the copy, a rule object has been allocated, and
  \<^verbatim>\<open>last_added_rule\<close> holds the step counter.
\<close>

definition reproduced :: "Net \<Rightarrow> nat \<Rightarrow> Cell \<Rightarrow> net_event list \<Rightarrow> Net" where
  "reproduced w self c' net' =
     w\<lparr>cells := (cells w)[self := c'], productRule_Net := net',
       next_ident := Suc (next_ident w), last_added_rule := master_count w\<rparr>"

definition reproduce_active_rule :: "Net \<Rightarrow> nat \<Rightarrow> error + Net" where
  "reproduce_active_rule w self =
     (case active_rule (cells w ! self) of
        None \<Rightarrow> Inl AttributeError
      | Some r \<Rightarrow>
          (case add_ProductRule (cells w ! self) (productRule_Net w)
                  (RuleObj (new_ProductRule (next_ident w) (get_input r) (get_output r))) of
             Inl e \<Rightarrow> Inl e
           | Inr (c', net') \<Rightarrow> remove_random_rule (reproduced w self c' net')))"

definition assign_active_rule :: "Net \<Rightarrow> nat \<Rightarrow> ProductRule option \<Rightarrow> Net" where
  "assign_active_rule w i v = w\<lparr>cells := (cells w)[i := (cells w ! i)\<lparr>active_rule := v\<rparr>]\<rparr>"

text \<open>
  \<^verbatim>\<open>receive_product\<close>, called on the cell \<open>self\<close> with the sending cell and the
  product. The arguments \<^verbatim>\<open>prohibited_return_output\<close>, \<^verbatim>\<open>who\<close> and \<^verbatim>\<open>debug\<close>
  only feed the printed messages, which are not modelled.
\<close>

definition receive_product :: "Net \<Rightarrow> nat \<Rightarrow> nat \<Rightarrow> Product \<Rightarrow> error + Net" where
  "receive_product w sender self product =
     (let w1 = w\<lparr>master_count := master_count w + 1\<rparr>;
          start = get_type product
      in if has_rule (cells w1 ! self) (ByType start) then
           (case (if repro_type (cells w1 ! self) = ''target'' then
                    (case get_random_rule_of_type (cells w1 ! self) (generator w1) start of
                       Inl e \<Rightarrow> Inl e
                     | Inr (r, g') \<Rightarrow>
                         (case reproduce_active_rule
                                 (assign_active_rule (w1\<lparr>generator := g'\<rparr>) self (Some r)) self of
                            Inl e \<Rightarrow> Inl e
                          | Inr w2 \<Rightarrow> Inr (assign_active_rule w2 self None)))
                  else if repro_type (cells w1 ! self) = ''source'' then
                    (case reproduce_active_rule w1 sender of
                       Inl e \<Rightarrow> Inl e
                     | Inr w2 \<Rightarrow> Inr (assign_active_rule w2 sender None))
                  else Inr w1) of
              Inl e \<Rightarrow> Inl e
            | Inr w3 \<Rightarrow>
                Inr (w3\<lparr>cells := (cells w3)[self := add_Product (cells w3 ! self) product]\<rparr>))
         else Inr (w1\<lparr>urn := urn w1 @ [product]\<rparr>))"

subsection \<open>Counts and well-formed indexes\<close>

definition lookup_bucket ::
  "(int, (int, ProductRule list) dict) dict \<Rightarrow> int \<Rightarrow> int \<Rightarrow> ProductRule list option" where
  "lookup_bucket rules i out =
     (case map_of rules i of None \<Rightarrow> None | Some inner \<Rightarrow> map_of inner out)"

text \<open>The inner dictionary of an input type and the bucket of a pair, empty when absent.\<close>

definition inner_of ::
  "(int, (int, ProductRule list) dict) dict \<Rightarrow> int \<Rightarrow> (int, ProductRule list) dict" where
  "inner_of rules i = (case map_of rules i of None \<Rightarrow> [] | Some inner \<Rightarrow> inner)"

definition bucket_of ::
  "(int, (int, ProductRule list) dict) dict \<Rightarrow> int \<Rightarrow> int \<Rightarrow> ProductRule list" where
  "bucket_of rules i out = (case lookup_bucket rules i out of None \<Rightarrow> [] | Some bucket \<Rightarrow> bucket)"

text \<open>The sum of the lengths of the buckets of the rule index.\<close>

definition bucket_sizes :: "(int, ProductRule list) dict \<Rightarrow> nat" where
  "bucket_sizes inner = sum_list (map (\<lambda>e. length (snd e)) inner)"

definition index_size :: "(int, (int, ProductRule list) dict) dict \<Rightarrow> nat" where
  "index_size rules = sum_list (map (\<lambda>e. bucket_sizes (snd e)) rules)"

text \<open>The sum of the counts of the aggregates of the aggregate index.\<close>

definition aggregate_total :: "(int \<times> int, ProductNetRule) dict \<Rightarrow> int" where
  "aggregate_total nets = sum_list (map (\<lambda>e. nr_count (snd e)) nets)"

definition counts_agree :: "Cell \<Rightarrow> bool" where
  "counts_agree c \<longleftrightarrow>
     count_rules c = int (index_size (product_rules c)) \<and>
     count_rules c = aggregate_total (product_netrules c)"

text \<open>
  The dictionaries have one entry per key, and an (input, output) pair has an aggregate
  exactly when it has a bucket, the aggregate's count being the length of the bucket.
\<close>

definition aggregates_match :: "Cell \<Rightarrow> bool" where
  "aggregates_match c \<longleftrightarrow>
     distinct (map fst (product_rules c)) \<and>
     (\<forall>i inner. map_of (product_rules c) i = Some inner \<longrightarrow> distinct (map fst inner)) \<and>
     distinct (map fst (product_netrules c)) \<and>
     (\<forall>i out.
        case lookup_bucket (product_rules c) i out of
          None \<Rightarrow> map_of (product_netrules c) (i, out) = None
        | Some bucket \<Rightarrow>
            (\<exists>n. map_of (product_netrules c) (i, out) = Some n \<and>
                 nr_count n = int (length bucket)))"

text \<open>
  The cells that arise from a cell with no rules (as \<^verbatim>\<open>__init__\<close> leaves it) by
  calls of \<^verbatim>\<open>add_ProductRule\<close> and \<^verbatim>\<open>remove_ProductRule\<close> that raise nothing, and
  by changes to the fields these two methods do not own.
\<close>

inductive reachable :: "Cell \<Rightarrow> bool" where
  fresh: "product_rules c = [] \<Longrightarrow> product_netrules c = [] \<Longrightarrow> count_rules c = 0 \<Longrightarrow> reachable c"
| added: "reachable c \<Longrightarrow> add_ProductRule c net a = Inr (c', net') \<Longrightarrow> reachable c'"
| removed: "reachable c \<Longrightarrow> remove_ProductRule c net master r = Inr (c', net') \<Longrightarrow> reachable c'"
| other: "reachable c \<Longrightarrow> product_rules c' = product_rules c \<Longrightarrow>
          product_netrules c' = product_netrules c \<Longrightarrow> count_rules c' = count_rules c \<Longrightarrow>
          reachable c'"

text \<open>Every rule of the index is stored under its own input and output type.\<close>

definition stored_by_type :: "Cell \<Rightarrow> bool" where
  "stored_by_type c \<longleftrightarrow>
     (\<forall>i out bucket. lookup_bucket (product_rules c) i out = Some bucket \<longrightarrow>
        (\<forall>r \<in> set bucket. get_input r = i \<and> get_output r = out))"

definition cell_wf :: "Cell \<Rightarrow> bool" where
  "cell_wf c \<longleftrightarrow> aggregates_match c \<and> stored_by_type c"

definition net_wf :: "Net \<Rightarrow> bool" where
  "net_wf w \<longleftrightarrow> (\<forall>c \<in> set (cells w). cell_wf c)"

text \<open>The number of rule instances in the indexes of all cells of the network.\<close>

definition total_rule_count :: "Net \<Rightarrow> nat" where
  "total_rule_count w = sum_list (map (\<lambda>c. length (all_rules c)) (cells w))"

text \<open>The sum of the rule counters of all cells of the network.\<close>

definition total_count_rules :: "Net \<Rightarrow> int" where
  "total_count_rules w = sum_list (map count_rules (cells w))"

text \<open>Every product of the inventory is stored under its current type.\<close>

definition inventory_by_type :: "Cell \<Rightarrow> bool" where
  "inventory_by_type c \<longleftrightarrow>
     distinct (map fst (products c)) \<and>
     (\<forall>t stack. map_of (products c) t = Some stack \<longrightarrow> (\<forall>p \<in> set stack. get_type p = t))"

text \<open>
  The products that \<^verbatim>\<open>has_Product\<close> samples from (those stored under a type for
  which the cell has a rule, in the order of the keys), and the inventory it leaves
  behind (the stack of every other type emptied).
\<close>

definition usable_products :: "Cell \<Rightarrow> Product list" where
  "usable_products c =
     concat (map snd (filter (\<lambda>e. fst e \<in> set (map fst (product_rules c))) (products c)))"

definition pruned_products :: "Cell \<Rightarrow> (int, Product list) dict" where
  "pruned_products c =
     map (\<lambda>e. if fst e \<in> set (map fst (product_rules c)) then e else (fst e, [])) (products c)"

text \<open>
  The cells after a reproduction by the cell \<open>s\<close> (copy added: \<open>c1\<close>; extinction on
  the cell \<open>owner\<close>: \<open>c2\<close>), the reset of the active rule of \<open>s\<close>, and the storage of
  the product on the cell \<open>t\<close>.
\<close>

definition received_cells ::
  "Cell list \<Rightarrow> nat \<Rightarrow> Cell \<Rightarrow> nat \<Rightarrow> Cell \<Rightarrow> nat \<Rightarrow> Product \<Rightarrow> Cell list" where
  "received_cells cs s c1 owner c2 t p =
     (let cs2 = cs[s := c1, owner := c2];
          cs3 = cs2[s := (cs2 ! s)\<lparr>active_rule := None\<rparr>]
      in cs3[t := add_Product (cs3 ! t) p])"

subsection \<open>Example states\<close>

definition rule_A1 :: ProductRule where
  "rule_A1 = \<lparr>rule_ident = 0, rule_input = 1, rule_output = 2\<rparr>"

definition rule_A2 :: ProductRule where
  "rule_A2 = \<lparr>rule_ident = 1, rule_input = 1, rule_output = 2\<rparr>"

definition rule_A3 :: ProductRule where
  "rule_A3 = \<lparr>rule_ident = 2, rule_input = 1, rule_output = 2\<rparr>"

definition rule_B1 :: ProductRule where
  "rule_B1 = \<lparr>rule_ident = 3, rule_input = 3, rule_output = 4\<rparr>"

definition rule_C1 :: ProductRule where
  "rule_C1 = \<lparr>rule_ident = 4, rule_input = 2, rule_output = 3\<rparr>"

definition aggregate :: "int \<Rightarrow> int \<Rightarrow> nat \<Rightarrow> int \<Rightarrow> ProductNetRule" where
  "aggregate i out ownr n = \<lparr>nr_input = i, nr_output = out, nr_owner = Some ownr, nr_count = n\<rparr>"

definition token :: "nat \<Rightarrow> int \<Rightarrow> Product" where
  "token i t = \<lparr>prod_ident = i, prod_type = t\<rparr>"

text \<open>A cell with three instances of the rule 1 \<open>\<rightarrow>\<close> 2 and one of the rule 3 \<open>\<rightarrow>\<close> 4.\<close>

definition cell_S :: Cell where
  "cell_S = (new_Cell 0 False ''source'' ''spatial'')
     \<lparr>neighbors := [1, 2],
      product_rules := [(1, [(2, [rule_A1, rule_A2, rule_A3])]), (3, [(4, [rule_B1])])],
      product_netrules := [((1, 2), aggregate 1 2 0 3), ((3, 4), aggregate 3 4 0 1)],
      products := [(1, [token 0 1, token 1 1, token 2 1]), (3, [token 3 3]), (7, [token 4 7])],
      count_rules := 4,
      active_rule := Some rule_A1\<rparr>"

text \<open>A cell with the single rule 2 \<open>\<rightarrow>\<close> 3.\<close>

definition cell_T :: Cell where
  "cell_T = (new_Cell 1 False ''source'' ''spatial'')
     \<lparr>neighbors := [0],
      product_rules := [(2, [(3, [rule_C1])])],
      product_netrules := [((2, 3), aggregate 2 3 1 1)],
      count_rules := 1\<rparr>"

definition net_ST :: Net where
  "net_ST = \<lparr>cells = [cell_S, cell_T], master_count = 10, last_added_rule = 0,
             productRule_Net = [], urn = [], generator = (\<lambda>n. 0), next_ident = 5\<rparr>"

text \<open>The example network with a generator whose first draw is \<open>d\<close>.\<close>

definition net_draw :: "nat \<Rightarrow> Net" where
  "net_draw d = net_ST\<lparr>generator := (\<lambda>n. d)\<rparr>"

text \<open>The example network with the reproduction policy "target" on the second cell.\<close>

definition net_target :: Net where
  "net_target = net_ST\<lparr>cells := [cell_S, cell_T\<lparr>repro_type := ''target''\<rparr>]\<rparr>"

section \<open>Properties\<close>

subsection \<open>Auxiliary facts on dictionaries\<close>

lemma update_absent: "k \<notin> set (map fst al) \<Longrightarrow> AList.update k v al = al @ [(k, v)]"
  by (induction al) auto

lemma filter_eq_distinct:
  "distinct xs \<Longrightarrow> length (filter (\<lambda>x. x = v) xs) = (if v \<in> set xs then 1 else 0)"
  by (induction xs) auto

lemma sum_update_present:
  fixes f :: "'v \<Rightarrow> 'm::comm_monoid_add"
  shows "map_of al k = Some v \<Longrightarrow>
    sum_list (map (\<lambda>e. f (snd e)) (AList.update k v' al)) + f v =
    sum_list (map (\<lambda>e. f (snd e)) al) + f v'"
  by (induction al) (auto simp: ac_simps split: if_splits)

lemma sum_update_absent:
  fixes f :: "'v \<Rightarrow> 'm::comm_monoid_add"
  shows "map_of al k = None \<Longrightarrow>
    sum_list (map (\<lambda>e. f (snd e)) (AList.update k v' al)) =
    sum_list (map (\<lambda>e. f (snd e)) al) + f v'"
  by (induction al) (auto simp: ac_simps split: if_splits)

lemma sum_delete_present:
  fixes f :: "'v \<Rightarrow> 'm::comm_monoid_add"
  shows "distinct (map fst al) \<Longrightarrow> map_of al k = Some v \<Longrightarrow>
    sum_list (map (\<lambda>e. f (snd e)) (AList.delete k al)) + f v =
    sum_list (map (\<lambda>e. f (snd e)) al)"
proof (induction al)
  case Nil
  then show ?case by simp
next
  case (Cons e al)
  show ?case
  proof (cases "fst e = k")
    case True
    with Cons.prems have "k \<notin> fst ` set al" "snd e = v" by auto
    with True show ?thesis by (simp add: ac_simps)
  next
    case False
    with Cons have "sum_list (map (\<lambda>e. f (snd e)) (AList.delete k al)) + f v =
        sum_list (map (\<lambda>e. f (snd e)) al)" by simp
    then have "f (snd e) + (sum_list (map (\<lambda>e. f (snd e)) (AList.delete k al)) + f v) =
        f (snd e) + sum_list (map (\<lambda>e. f (snd e)) al)" by simp
    with False show ?thesis by (simp add: add.assoc)
  qed
qed

lemma map_of_Some_key: "map_of al k = Some v \<Longrightarrow> k \<in> fst ` set al"
  by (metis map_of_eq_None_iff option.distinct(1))

lemma add_ProductRule_result:
  "add_ProductRule c net (RuleObj r) =
     Inr (c\<lparr>product_rules :=
              AList.update (get_input r)
                (AList.update (get_output r)
                   (bucket_of (product_rules c) (get_input r) (get_output r) @ [r])
                   (inner_of (product_rules c) (get_input r)))
                (product_rules c),
            product_netrules :=
              AList.update (get_name r)
                (case map_of (product_netrules c) (get_name r) of
                   Some n \<Rightarrow> add_to_count n
                 | None \<Rightarrow> set_owner (new_ProductNetRule (get_input r) (get_output r) 1) (cell_id c))
                (product_netrules c),
            count_rules := count_rules c + 1\<rparr>,
          case map_of (product_netrules c) (get_name r) of
            Some n \<Rightarrow> net
          | None \<Rightarrow> net @ [Add_ProductNetRule
              (set_owner (new_ProductNetRule (get_input r) (get_output r) 1) (cell_id c))])"
  by (simp add: add_ProductRule_def add_ProductNetRule_def Let_def inner_of_def bucket_of_def
      lookup_bucket_def split: option.splits)

lemma add_ProductRule_Other: "add_ProductRule c net OtherObj = Inl TypeError"
  by (simp add: add_ProductRule_def)

lemma remove_ProductRule_result:
  assumes "map_of (product_rules c) (get_input r) = Some inner"
    and "map_of inner (get_output r) = Some bucket"
    and "r \<in> set bucket"
    and "map_of (product_netrules c) (get_name r) = Some n"
  shows "remove_ProductRule c net master r =
     Inr (c\<lparr>product_rules :=
              (if remove1 r bucket = [] then
                 (if AList.delete (get_output r) inner = []
                  then AList.delete (get_input r) (product_rules c)
                  else AList.update (get_input r) (AList.delete (get_output r) inner)
                         (product_rules c))
               else AList.update (get_input r)
                      (AList.update (get_output r) (remove1 r bucket) inner) (product_rules c)),
            product_netrules :=
              (if remove1 r bucket = [] then AList.delete (get_name r) (product_netrules c)
               else AList.update (get_name r) (subtract_from_count n) (product_netrules c)),
            count_rules := count_rules c - 1\<rparr>,
          if remove1 r bucket = []
          then net @ [Remove_ProductNetRule (Some (subtract_from_count n)) master]
          else net)"
  using assms
  by (simp add: remove_ProductRule_def Let_def update_conv' delete_update_same)

lemma remove_ProductRule_InrD:
  assumes "remove_ProductRule c net master r = Inr (c', net')"
  shows "\<exists>inner bucket n.
     map_of (product_rules c) (get_input r) = Some inner \<and>
     map_of inner (get_output r) = Some bucket \<and> r \<in> set bucket \<and>
     map_of (product_netrules c) (get_name r) = Some n"
  using assms
  by (auto simp: remove_ProductRule_def Let_def split: option.splits if_splits)

lemma lookup_bucket_update:
  "lookup_bucket (AList.update i (AList.update out b (inner_of rules i)) rules) i' out' =
     (if i' = i \<and> out' = out then Some b else lookup_bucket rules i' out')"
  by (simp add: lookup_bucket_def inner_of_def update_conv' split: option.splits)

lemma inner_of_Some: "map_of rules i = Some inner \<Longrightarrow> inner_of rules i = inner"
  by (simp add: inner_of_def)

lemma bucket_of_Some:
  "map_of rules i = Some inner \<Longrightarrow> map_of inner out = Some b \<Longrightarrow> bucket_of rules i out = b"
  by (simp add: bucket_of_def lookup_bucket_def)

lemma lookup_bucket_delete:
  assumes "map_of rules i = Some inner"
  shows "lookup_bucket
     (if AList.delete out inner = [] then AList.delete i rules
      else AList.update i (AList.delete out inner) rules) i' out' =
     (if i' = i \<and> out' = out then None else lookup_bucket rules i' out')"
proof (cases "AList.delete out inner = []")
  case True
  have "map_of inner out' = None" if "out' \<noteq> out"
  proof -
    have "map_of (AList.delete out inner) out' = map_of inner out'"
      using that by simp
    with True show ?thesis by simp
  qed
  with True assms show ?thesis
    by (auto simp: lookup_bucket_def delete_conv' split: option.splits)
next
  case False
  with assms show ?thesis
    by (auto simp: lookup_bucket_def delete_conv' update_conv' split: option.splits)
qed

lemma bucket_sizes_update:
  "bucket_sizes (AList.update out b inner) +
     length (case map_of inner out of None \<Rightarrow> [] | Some b0 \<Rightarrow> b0) =
   bucket_sizes inner + length b"
  unfolding bucket_sizes_def
  by (cases "map_of inner out")
     (simp_all add: sum_update_absent [where f = length] sum_update_present [where f = length])

lemma index_size_update:
  "index_size (AList.update i (AList.update out b (inner_of rules i)) rules) +
     length (bucket_of rules i out) = index_size rules + length b"
proof (cases "map_of rules i")
  case None
  then have "index_size (AList.update i (AList.update out b []) rules) =
      index_size rules + bucket_sizes (AList.update out b [])"
    unfolding index_size_def by (rule sum_update_absent)
  with None show ?thesis
    by (simp add: inner_of_def bucket_of_def lookup_bucket_def bucket_sizes_def)
next
  case (Some inner)
  then have "index_size (AList.update i (AList.update out b inner) rules) + bucket_sizes inner =
      index_size rules + bucket_sizes (AList.update out b inner)"
    unfolding index_size_def by (rule sum_update_present)
  moreover have "bucket_sizes (AList.update out b inner) + length (bucket_of rules i out) =
      bucket_sizes inner + length b"
    using bucket_sizes_update [of out b inner] Some
    by (simp add: bucket_of_def lookup_bucket_def)
  ultimately show ?thesis using Some by (simp add: inner_of_def)
qed

lemma index_size_delete:
  assumes "distinct (map fst rules)" and "map_of rules i = Some inner"
    and "distinct (map fst inner)" and "map_of inner out = Some b"
  shows "index_size (if AList.delete out inner = [] then AList.delete i rules
                     else AList.update i (AList.delete out inner) rules) + length b =
         index_size rules"
proof -
  have b: "bucket_sizes (AList.delete out inner) + length b = bucket_sizes inner"
    unfolding bucket_sizes_def using assms(3,4) by (rule sum_delete_present)
  show ?thesis
  proof (cases "AList.delete out inner = []")
    case True
    with b have "bucket_sizes inner = length b" by (simp add: bucket_sizes_def)
    moreover have "index_size (AList.delete i rules) + bucket_sizes inner = index_size rules"
      unfolding index_size_def using assms(1,2) by (rule sum_delete_present)
    ultimately show ?thesis using True by simp
  next
    case False
    have "index_size (AList.update i (AList.delete out inner) rules) + bucket_sizes inner =
        index_size rules + bucket_sizes (AList.delete out inner)"
      unfolding index_size_def using assms(2) by (rule sum_update_present)
    with b False show ?thesis by simp
  qed
qed

lemma aggregate_total_update:
  "aggregate_total (AList.update k n' nets) +
     (case map_of nets k of None \<Rightarrow> 0 | Some n \<Rightarrow> nr_count n) =
   aggregate_total nets + nr_count n'"
  unfolding aggregate_total_def
  by (cases "map_of nets k")
     (simp_all add: sum_update_absent [where f = nr_count] sum_update_present [where f = nr_count])

lemma aggregate_total_delete:
  "distinct (map fst nets) \<Longrightarrow> map_of nets k = Some n \<Longrightarrow>
   aggregate_total (AList.delete k nets) + nr_count n = aggregate_total nets"
  unfolding aggregate_total_def by (rule sum_delete_present)

lemma add_preserves_counts:
  assumes "counts_agree c" and "add_ProductRule c net a = Inr (c', net')"
  shows "counts_agree c'"
proof (cases a)
  case OtherObj
  with assms(2) show ?thesis by (simp add: add_ProductRule_Other)
next
  case (RuleObj r)
  let ?i = "get_input r" and ?o = "get_output r"
  have i: "index_size (product_rules c') = index_size (product_rules c) + 1"
    using assms(2) RuleObj
      index_size_update [of ?i ?o "bucket_of (product_rules c) ?i ?o @ [r]" "product_rules c"]
    by (auto simp: add_ProductRule_result)
  have a: "aggregate_total (product_netrules c') = aggregate_total (product_netrules c) + 1"
  proof (cases "map_of (product_netrules c) (get_name r)")
    case None
    then show ?thesis
      using assms(2) RuleObj
        aggregate_total_update [of "get_name r"
          "set_owner (new_ProductNetRule ?i ?o 1) (cell_id c)" "product_netrules c"]
      by (auto simp: add_ProductRule_result set_owner_def new_ProductNetRule_def)
  next
    case (Some n)
    then show ?thesis
      using assms(2) RuleObj
        aggregate_total_update [of "get_name r" "add_to_count n" "product_netrules c"]
      by (auto simp: add_ProductRule_result add_to_count_def)
  qed
  have "count_rules c' = count_rules c + 1"
    using assms(2) RuleObj by (auto simp: add_ProductRule_result)
  with i a assms(1) show ?thesis by (simp add: counts_agree_def)
qed

lemma add_preserves_match:
  assumes "aggregates_match c" and "add_ProductRule c net a = Inr (c', net')"
  shows "aggregates_match c'"
proof (cases a)
  case OtherObj
  with assms(2) show ?thesis by (simp add: add_ProductRule_Other)
next
  case (RuleObj r)
  let ?i = "get_input r" and ?o = "get_output r"
  let ?b = "bucket_of (product_rules c) ?i ?o @ [r]"
  let ?n = "case map_of (product_netrules c) (get_name r) of
              Some n \<Rightarrow> add_to_count n
            | None \<Rightarrow> set_owner (new_ProductNetRule ?i ?o 1) (cell_id c)"
  have pr: "product_rules c' =
      AList.update ?i (AList.update ?o ?b (inner_of (product_rules c) ?i)) (product_rules c)"
    and pn: "product_netrules c' = AList.update (get_name r) ?n (product_netrules c)"
    using assms(2) RuleObj by (auto simp: add_ProductRule_result)
  from assms(1) have d1: "distinct (map fst (product_rules c))"
    and d2: "\<And>i inner. map_of (product_rules c) i = Some inner \<Longrightarrow> distinct (map fst inner)"
    and d3: "distinct (map fst (product_netrules c))"
    and m: "\<And>i out. case lookup_bucket (product_rules c) i out of
          None \<Rightarrow> map_of (product_netrules c) (i, out) = None
        | Some bucket \<Rightarrow>
            (\<exists>n. map_of (product_netrules c) (i, out) = Some n \<and>
                 nr_count n = int (length bucket))"
    by (auto simp: aggregates_match_def)
  have e1: "distinct (map fst (product_rules c'))"
    using d1 by (simp add: pr distinct_update)
  have di: "distinct (map fst (inner_of (product_rules c) ?i))"
    using d2 by (auto simp: inner_of_def split: option.splits)
  have e2: "distinct (map fst inner)" if "map_of (product_rules c') i = Some inner" for i inner
    using that d2 di by (auto simp: pr update_conv' distinct_update split: if_splits)
  have e3: "distinct (map fst (product_netrules c'))"
    using d3 by (simp add: pn distinct_update)
  have e4: "case lookup_bucket (product_rules c') i out of
          None \<Rightarrow> map_of (product_netrules c') (i, out) = None
        | Some bucket \<Rightarrow>
            (\<exists>n. map_of (product_netrules c') (i, out) = Some n \<and>
                 nr_count n = int (length bucket))" for i out
  proof (cases "i = ?i \<and> out = ?o")
    case True
    have "nr_count ?n = int (length ?b)"
      using m [of ?i ?o]
      by (auto simp: bucket_of_def get_name_def get_input_def get_output_def add_to_count_def
          set_owner_def new_ProductNetRule_def split: option.splits)
    moreover have "lookup_bucket (product_rules c') i out = Some ?b"
      using True by (simp add: pr lookup_bucket_update)
    moreover have "map_of (product_netrules c') (i, out) = Some ?n"
      using True by (simp add: pn update_conv' get_name_def get_input_def get_output_def)
    ultimately show ?thesis by simp
  next
    case False
    then have "(i, out) \<noteq> get_name r"
      by (auto simp: get_name_def get_input_def get_output_def)
    then have mn: "map_of (product_netrules c') (i, out) = map_of (product_netrules c) (i, out)"
      by (simp add: pn update_conv')
    have lb: "lookup_bucket (product_rules c') i out = lookup_bucket (product_rules c) i out"
      using False by (auto simp: pr lookup_bucket_update)
    show ?thesis using m [of i out] by (simp only: lb mn)
  qed
  from e1 e2 e3 e4 show ?thesis unfolding aggregates_match_def by blast
qed

lemma remove_preserves_match_counts:
  assumes am: "aggregates_match c"
    and rm: "remove_ProductRule c net master r = Inr (c', net')"
  shows "aggregates_match c' \<and> (counts_agree c \<longrightarrow> counts_agree c')"
proof -
  let ?i = "get_input r" and ?o = "get_output r"
  from remove_ProductRule_InrD [OF rm] obtain inner bucket n where
    l1: "map_of (product_rules c) ?i = Some inner" and
    l2: "map_of inner ?o = Some bucket" and
    l3: "r \<in> set bucket" and
    l4: "map_of (product_netrules c) (get_name r) = Some n"
    by blast
  from am have d1: "distinct (map fst (product_rules c))"
    and d2: "\<And>i inner. map_of (product_rules c) i = Some inner \<Longrightarrow> distinct (map fst inner)"
    and d3: "distinct (map fst (product_netrules c))"
    and m: "\<And>i out. case lookup_bucket (product_rules c) i out of
          None \<Rightarrow> map_of (product_netrules c) (i, out) = None
        | Some bucket \<Rightarrow>
            (\<exists>n. map_of (product_netrules c) (i, out) = Some n \<and>
                 nr_count n = int (length bucket))"
    by (auto simp: aggregates_match_def)
  have nm: "get_name r = (?i, ?o)"
    by (simp add: get_name_def get_input_def get_output_def)
  have lb: "lookup_bucket (product_rules c) ?i ?o = Some bucket"
    using l1 l2 by (simp add: lookup_bucket_def)
  have cn: "nr_count n = int (length bucket)"
    using m [of ?i ?o] l4 by (simp add: lb nm)
  have io: "inner_of (product_rules c) ?i = inner" using l1 by (rule inner_of_Some)
  have bo: "bucket_of (product_rules c) ?i ?o = bucket" using l1 l2 by (rule bucket_of_Some)
  have len: "length (remove1 r bucket) + 1 = length bucket"
    using l3 by (simp add: length_remove1) (metis One_nat_def Suc_pred length_pos_if_in_set)
  have cr: "count_rules c' = count_rules c - 1"
    using rm by (auto simp: remove_ProductRule_result [OF l1 l2 l3 l4])
  show ?thesis
  proof (cases "remove1 r bucket = []")
    case True
    with len have lb1: "length bucket = 1" by simp
    have pr: "product_rules c' =
        (if AList.delete ?o inner = [] then AList.delete ?i (product_rules c)
         else AList.update ?i (AList.delete ?o inner) (product_rules c))"
      and pn: "product_netrules c' = AList.delete (get_name r) (product_netrules c)"
      using rm True by (auto simp: remove_ProductRule_result [OF l1 l2 l3 l4])
    have e1: "distinct (map fst (product_rules c'))"
      using d1 by (simp add: pr distinct_update distinct_delete)
    have di: "distinct (map fst (AList.delete ?o inner))"
      using d2 [OF l1] by (rule distinct_delete)
    have e2: "distinct (map fst inner')" if "map_of (product_rules c') i = Some inner'" for i inner'
      using that d2 di by (auto simp: pr update_conv' delete_conv' split: if_splits)
    have e3: "distinct (map fst (product_netrules c'))"
      using d3 by (simp add: pn distinct_delete)
    have e4: "case lookup_bucket (product_rules c') i out of
          None \<Rightarrow> map_of (product_netrules c') (i, out) = None
        | Some bucket \<Rightarrow>
            (\<exists>n. map_of (product_netrules c') (i, out) = Some n \<and>
                 nr_count n = int (length bucket))" for i out
    proof (cases "i = ?i \<and> out = ?o")
      case True
      then have "lookup_bucket (product_rules c') i out = None"
        by (simp only: pr lookup_bucket_delete [OF l1]) simp
      moreover have "map_of (product_netrules c') (i, out) = None"
        using True by (simp add: pn nm delete_conv')
      ultimately show ?thesis by simp
    next
      case False
      then have "(i, out) \<noteq> get_name r" by (auto simp: nm)
      then have mn: "map_of (product_netrules c') (i, out) = map_of (product_netrules c) (i, out)"
        by (simp add: pn delete_conv')
      have lb': "lookup_bucket (product_rules c') i out = lookup_bucket (product_rules c) i out"
        using False by (simp only: pr lookup_bucket_delete [OF l1]) auto
      show ?thesis using m [of i out] by (simp only: lb' mn)
    qed
    have i: "index_size (product_rules c') + length bucket = index_size (product_rules c)"
      unfolding pr using d1 l1 d2 [OF l1] l2 by (rule index_size_delete)
    have a: "aggregate_total (product_netrules c') + nr_count n =
        aggregate_total (product_netrules c)"
      unfolding pn using d3 l4 by (rule aggregate_total_delete)
    have "counts_agree c'" if "counts_agree c"
      using that i a cn lb1 cr by (simp add: counts_agree_def)
    with e1 e2 e3 e4 show ?thesis unfolding aggregates_match_def by blast
  next
    case False
    let ?b = "remove1 r bucket"
    have pr: "product_rules c' =
        AList.update ?i (AList.update ?o ?b (inner_of (product_rules c) ?i)) (product_rules c)"
      and pn: "product_netrules c' =
        AList.update (get_name r) (subtract_from_count n) (product_netrules c)"
      using rm False by (auto simp: remove_ProductRule_result [OF l1 l2 l3 l4] io)
    have e1: "distinct (map fst (product_rules c'))"
      using d1 by (simp add: pr distinct_update)
    have di: "distinct (map fst (inner_of (product_rules c) ?i))"
      using d2 [OF l1] by (simp add: io)
    have e2: "distinct (map fst inner')" if "map_of (product_rules c') i = Some inner'" for i inner'
      using that d2 di by (auto simp: pr update_conv' distinct_update split: if_splits)
    have e3: "distinct (map fst (product_netrules c'))"
      using d3 by (simp add: pn distinct_update)
    have e4: "case lookup_bucket (product_rules c') i out of
          None \<Rightarrow> map_of (product_netrules c') (i, out) = None
        | Some bucket \<Rightarrow>
            (\<exists>n. map_of (product_netrules c') (i, out) = Some n \<and>
                 nr_count n = int (length bucket))" for i out
    proof (cases "i = ?i \<and> out = ?o")
      case True
      have "nr_count (subtract_from_count n) = int (length ?b)"
        using cn len by (simp add: subtract_from_count_def)
      moreover have "lookup_bucket (product_rules c') i out = Some ?b"
        using True by (simp add: pr lookup_bucket_update)
      moreover have "map_of (product_netrules c') (i, out) = Some (subtract_from_count n)"
        using True by (simp add: pn update_conv' nm)
      ultimately show ?thesis by simp
    next
      case False
      then have "(i, out) \<noteq> get_name r" by (auto simp: nm)
      then have mn: "map_of (product_netrules c') (i, out) = map_of (product_netrules c) (i, out)"
        by (simp add: pn update_conv')
      have lb': "lookup_bucket (product_rules c') i out = lookup_bucket (product_rules c) i out"
        using False by (auto simp: pr lookup_bucket_update)
      show ?thesis using m [of i out] by (simp only: lb' mn)
    qed
    have i: "index_size (product_rules c') + length bucket =
        index_size (product_rules c) + length ?b"
      unfolding pr using index_size_update [of ?i ?o ?b "product_rules c"] by (simp add: bo)
    have a: "aggregate_total (product_netrules c') + nr_count n =
        aggregate_total (product_netrules c) + nr_count (subtract_from_count n)"
      unfolding pn using aggregate_total_update [of "get_name r" "subtract_from_count n"
          "product_netrules c"] by (simp add: l4)
    have "counts_agree c'" if "counts_agree c"
      using that i a len cr by (simp add: counts_agree_def subtract_from_count_def)
    with e1 e2 e3 e4 show ?thesis unfolding aggregates_match_def by blast
  qed
qed

lemma reachable_invariant: "reachable c \<Longrightarrow> aggregates_match c \<and> counts_agree c"
proof (induction rule: reachable.induct)
  case (fresh c)
  then show ?case
    by (simp add: aggregates_match_def counts_agree_def lookup_bucket_def index_size_def
        aggregate_total_def)
next
  case (added c net a c' net')
  then show ?case using add_preserves_match add_preserves_counts by blast
next
  case (removed c net master r c' net')
  then show ?case using remove_preserves_match_counts by blast
next
  case (other c c')
  have "aggregates_match c' = aggregates_match c"
    unfolding aggregates_match_def other.hyps(2,3) by (rule refl)
  moreover have "counts_agree c' = counts_agree c"
    unfolding counts_agree_def other.hyps(2,3,4) by (rule refl)
  ultimately show ?case using other.IH by simp
qed

subsection \<open>The example states are well formed\<close>

lemma aggregates_match_cell_S: "aggregates_match cell_S"
  by (auto simp: aggregates_match_def cell_S_def new_Cell_def lookup_bucket_def aggregate_def
      split: if_splits option.splits)

lemma aggregates_match_cell_T: "aggregates_match cell_T"
  by (auto simp: aggregates_match_def cell_T_def new_Cell_def lookup_bucket_def aggregate_def
      split: if_splits option.splits)

lemma counts_agree_cell_S: "counts_agree cell_S"
  by (simp add: counts_agree_def cell_S_def new_Cell_def index_size_def bucket_sizes_def
      aggregate_total_def aggregate_def)

lemma stored_by_type_cell_S: "stored_by_type cell_S"
  by (auto simp: stored_by_type_def cell_S_def new_Cell_def lookup_bucket_def
      rule_A1_def rule_A2_def rule_A3_def rule_B1_def get_input_def get_output_def
      split: if_splits option.splits)

lemma stored_by_type_cell_T: "stored_by_type cell_T"
  by (auto simp: stored_by_type_def cell_T_def new_Cell_def lookup_bucket_def
      rule_C1_def get_input_def get_output_def
      split: if_splits option.splits)

lemma net_wf_net_ST: "net_wf net_ST"
  by (simp add: net_wf_def net_ST_def cell_wf_def aggregates_match_cell_S aggregates_match_cell_T
      stored_by_type_cell_S stored_by_type_cell_T)

subsection \<open>The candidates of the random selection\<close>

lemma length_rules_of_inner: "length (rules_of_inner inner) = bucket_sizes inner"
  by (simp add: rules_of_inner_def bucket_sizes_def length_concat comp_def)

lemma length_all_rules: "length (all_rules c) = index_size (product_rules c)"
  by (simp add: all_rules_def index_size_def length_concat comp_def length_rules_of_inner)

lemma sum_single_key:
  fixes g :: "'k \<Rightarrow> 'v \<Rightarrow> nat"
  assumes "distinct (map fst xs)"
    and "\<And>k' v. (k', v) \<in> set xs \<Longrightarrow> k' \<noteq> k \<Longrightarrow> g k' v = 0"
  shows "sum_list (map (\<lambda>e. g (fst e) (snd e)) xs) =
         (case map_of xs k of None \<Rightarrow> 0 | Some v \<Rightarrow> g k v)"
  using assms
proof (induction xs)
  case Nil
  then show ?case by simp
next
  case (Cons e xs)
  show ?case
  proof (cases "fst e = k")
    case True
    with Cons.prems(1) have "k \<notin> fst ` set xs" by auto
    then have "\<And>k' v. (k', v) \<in> set xs \<Longrightarrow> g k' v = 0"
      using Cons.prems(2) by (metis fst_conv image_eqI list.set_intros(2))
    then have "sum_list (map (\<lambda>e. g (fst e) (snd e)) xs) = 0" by auto
    with True show ?thesis by simp
  next
    case False
    then have "g (fst e) (snd e) = 0" using Cons.prems(2) [of "fst e" "snd e"] by simp
    moreover have "sum_list (map (\<lambda>e. g (fst e) (snd e)) xs) =
         (case map_of xs k of None \<Rightarrow> 0 | Some v \<Rightarrow> g k v)"
      using Cons.IH Cons.prems by auto
    ultimately show ?thesis using False by simp
  qed
qed

lemma length_filter_concat:
  "length (filter P (concat xss)) = sum_list (map (\<lambda>xs. length (filter P xs)) xss)"
  by (induction xss) auto

lemma count_type_all_rules:
  assumes d1: "distinct (map fst (product_rules c))"
    and d2: "\<And>i inner. map_of (product_rules c) i = Some inner \<Longrightarrow> distinct (map fst inner)"
    and st: "stored_by_type c"
  shows "length (filter (\<lambda>r. get_input r = i \<and> get_output r = out) (all_rules c)) =
         length (bucket_of (product_rules c) i out)"
proof -
  let ?P = "\<lambda>r. get_input r = i \<and> get_output r = out"
  let ?g = "\<lambda>(i'::int) inner. length (filter ?P (rules_of_inner inner))"
  let ?h = "\<lambda>(out'::int) b. length (filter ?P b)"
  have own: "get_input r = i' \<and> get_output r = out'"
    if "(i', inner) \<in> set (product_rules c)" "(out', b) \<in> set inner" "r \<in> set b"
    for i' inner out' b r
  proof -
    from that(1) d1 have m1: "map_of (product_rules c) i' = Some inner" by simp
    from that(2) d2 [OF m1] have "map_of inner out' = Some b" by simp
    with m1 have "lookup_bucket (product_rules c) i' out' = Some b"
      by (simp add: lookup_bucket_def)
    with st that(3) show ?thesis unfolding stored_by_type_def by blast
  qed
  have z1: "?g i' inner = 0" if "(i', inner) \<in> set (product_rules c)" "i' \<noteq> i" for i' inner
    using own [OF that(1)] that(2) by (auto simp: rules_of_inner_def filter_empty_conv)
  have "length (filter ?P (all_rules c)) =
      sum_list (map (\<lambda>e. ?g (fst e) (snd e)) (product_rules c))"
    by (simp add: all_rules_def length_filter_concat comp_def)
  also have "\<dots> = (case map_of (product_rules c) i of None \<Rightarrow> 0 | Some inner \<Rightarrow> ?g i inner)"
    using d1 z1 by (rule sum_single_key)
  finally have step1: "length (filter ?P (all_rules c)) =
      (case map_of (product_rules c) i of None \<Rightarrow> 0 | Some inner \<Rightarrow> ?g i inner)" .
  show ?thesis
  proof (cases "map_of (product_rules c) i")
    case None
    with step1 show ?thesis by (simp add: bucket_of_def lookup_bucket_def)
  next
    case (Some inner)
    then have mem: "(i, inner) \<in> set (product_rules c)" by (rule map_of_SomeD)
    have z2: "?h out' b = 0" if "(out', b) \<in> set inner" "out' \<noteq> out" for out' b
      using own [OF mem that(1)] that(2) by (auto simp: filter_empty_conv)
    have "?g i inner = sum_list (map (\<lambda>e. ?h (fst e) (snd e)) inner)"
      by (simp add: rules_of_inner_def length_filter_concat comp_def)
    also have "\<dots> = (case map_of inner out of None \<Rightarrow> 0 | Some b \<Rightarrow> ?h out b)"
      using d2 [OF Some] z2 by (rule sum_single_key)
    finally have step2:
      "?g i inner = (case map_of inner out of None \<Rightarrow> 0 | Some b \<Rightarrow> ?h out b)" .
    show ?thesis
    proof (cases "map_of inner out")
      case None
      with step1 step2 Some show ?thesis by (simp add: bucket_of_def lookup_bucket_def)
    next
      case (Some b)
      then have "(out, b) \<in> set inner" by (rule map_of_SomeD)
      from own [OF mem this] have "filter ?P b = b" by (auto simp: filter_id_conv)
      with step1 step2 Some \<open>map_of (product_rules c) i = Some inner\<close> show ?thesis
        by (simp add: bucket_of_def lookup_bucket_def)
    qed
  qed
qed

lemma concat_single_key:
  assumes "distinct (map fst xs)"
    and "\<And>k' v. (k', v) \<in> set xs \<Longrightarrow> k' \<noteq> k \<Longrightarrow> g k' v = []"
  shows "concat (map (\<lambda>e. g (fst e) (snd e)) xs) =
         (case map_of xs k of None \<Rightarrow> [] | Some v \<Rightarrow> g k v)"
  using assms
proof (induction xs)
  case Nil
  then show ?case by simp
next
  case (Cons e xs)
  show ?case
  proof (cases "fst e = k")
    case True
    with Cons.prems(1) have "k \<notin> fst ` set xs" by auto
    then have "\<And>k' v. (k', v) \<in> set xs \<Longrightarrow> g k' v = []"
      using Cons.prems(2) by (metis fst_conv image_eqI list.set_intros(2))
    then have "concat (map (\<lambda>e. g (fst e) (snd e)) xs) = []" by auto
    with True show ?thesis by simp
  next
    case False
    then have "g (fst e) (snd e) = []" using Cons.prems(2) [of "fst e" "snd e"] by simp
    moreover have "concat (map (\<lambda>e. g (fst e) (snd e)) xs) =
         (case map_of xs k of None \<Rightarrow> [] | Some v \<Rightarrow> g k v)"
      using Cons.IH Cons.prems by auto
    ultimately show ?thesis using False by simp
  qed
qed

lemma filter_type_all_rules:
  assumes d1: "distinct (map fst (product_rules c))"
    and d2: "\<And>i inner. map_of (product_rules c) i = Some inner \<Longrightarrow> distinct (map fst inner)"
    and st: "stored_by_type c"
  shows "filter (\<lambda>r. get_input r = i \<and> get_output r = out) (all_rules c) =
         bucket_of (product_rules c) i out"
proof -
  let ?P = "\<lambda>r. get_input r = i \<and> get_output r = out"
  let ?g = "\<lambda>(i'::int) inner. filter ?P (rules_of_inner inner)"
  let ?h = "\<lambda>(out'::int) b. filter ?P b"
  have own: "get_input r = i' \<and> get_output r = out'"
    if "(i', inner) \<in> set (product_rules c)" "(out', b) \<in> set inner" "r \<in> set b"
    for i' inner out' b r
  proof -
    from that(1) d1 have m1: "map_of (product_rules c) i' = Some inner" by simp
    from that(2) d2 [OF m1] have "map_of inner out' = Some b" by simp
    with m1 have "lookup_bucket (product_rules c) i' out' = Some b"
      by (simp add: lookup_bucket_def)
    with st that(3) show ?thesis unfolding stored_by_type_def by blast
  qed
  have z1: "?g i' inner = []" if "(i', inner) \<in> set (product_rules c)" "i' \<noteq> i" for i' inner
    using own [OF that(1)] that(2) by (auto simp: rules_of_inner_def filter_empty_conv)
  have "filter ?P (all_rules c) = concat (map (\<lambda>e. ?g (fst e) (snd e)) (product_rules c))"
    by (simp add: all_rules_def filter_concat comp_def)
  also have "\<dots> = (case map_of (product_rules c) i of None \<Rightarrow> [] | Some inner \<Rightarrow> ?g i inner)"
    using d1 z1 by (rule concat_single_key)
  finally have step1: "filter ?P (all_rules c) =
      (case map_of (product_rules c) i of None \<Rightarrow> [] | Some inner \<Rightarrow> ?g i inner)" .
  show ?thesis
  proof (cases "map_of (product_rules c) i")
    case None
    with step1 show ?thesis by (simp add: bucket_of_def lookup_bucket_def)
  next
    case (Some inner)
    then have mem: "(i, inner) \<in> set (product_rules c)" by (rule map_of_SomeD)
    have z2: "?h out' b = []" if "(out', b) \<in> set inner" "out' \<noteq> out" for out' b
      using own [OF mem that(1)] that(2) by (auto simp: filter_empty_conv)
    have "?g i inner = concat (map (\<lambda>e. ?h (fst e) (snd e)) inner)"
      by (simp add: rules_of_inner_def filter_concat comp_def)
    also have "\<dots> = (case map_of inner out of None \<Rightarrow> [] | Some b \<Rightarrow> ?h out b)"
      using d2 [OF Some] z2 by (rule concat_single_key)
    finally have step2:
      "?g i inner = (case map_of inner out of None \<Rightarrow> [] | Some b \<Rightarrow> ?h out b)" .
    show ?thesis
    proof (cases "map_of inner out")
      case None
      with step1 step2 Some show ?thesis by (simp add: bucket_of_def lookup_bucket_def)
    next
      case (Some b)
      then have "(out, b) \<in> set inner" by (rule map_of_SomeD)
      from own [OF mem this] have "filter ?P b = b" by (auto simp: filter_id_conv)
      with step1 step2 Some \<open>map_of (product_rules c) i = Some inner\<close> show ?thesis
        by (simp add: bucket_of_def lookup_bucket_def)
    qed
  qed
qed

lemma filter_instance_all_rules:
  assumes d1: "distinct (map fst (product_rules c))"
    and d2: "\<And>i inner. map_of (product_rules c) i = Some inner \<Longrightarrow> distinct (map fst inner)"
    and st: "stored_by_type c"
  shows "filter (\<lambda>x. x = r) (all_rules c) =
         filter (\<lambda>x. x = r) (bucket_of (product_rules c) (get_input r) (get_output r))"
proof -
  let ?P = "\<lambda>x. get_input x = get_input r \<and> get_output x = get_output r"
  have "filter (\<lambda>x. x = r) (all_rules c) = filter (\<lambda>x. x = r) (filter ?P (all_rules c))"
    by (simp add: conj_commute cong: conj_cong)
  then show ?thesis
    by (simp only: filter_type_all_rules [OF d1 d2 st])
qed

subsection \<open>The loop of has\_Product\<close>

lemma map_of_append_fresh:
  "k \<notin> fst ` set pre \<Longrightarrow> map_of (pre @ (k, v) # es) k = Some v"
  by (induction pre) auto

lemma update_append_fresh:
  "k \<notin> fst ` set pre \<Longrightarrow> AList.update k v' (pre @ (k, v) # es) = pre @ (k, v') # es"
  by (induction pre) auto

lemma has_Product_loop_entries:
  "distinct (map fst (pre @ es)) \<Longrightarrow>
   has_Product_loop rk (map fst es) (pre @ es) has =
     Inr (pre @ map (\<lambda>e. if fst e \<in> set rk then e else (fst e, [])) es,
          has @ concat (map snd (filter (\<lambda>e. fst e \<in> set rk) es)))"
proof (induction es arbitrary: pre has)
  case Nil
  then show ?case by simp
next
  case (Cons e es)
  obtain k v where e: "e = (k, v)" by (cases e)
  from Cons.prems e have fresh: "k \<notin> fst ` set pre" by auto
  show ?case
  proof (cases "k \<in> set rk")
    case True
    have d: "distinct (map fst ((pre @ [e]) @ es))" using Cons.prems by simp
    from Cons.IH [OF d, of "has @ v"] True e fresh show ?thesis
      by (simp add: map_of_append_fresh del: map_of_append)
  next
    case False
    have d: "distinct (map fst ((pre @ [(k, [])]) @ es))" using Cons.prems e by simp
    from Cons.IH [OF d, of has] False e fresh show ?thesis
      by (simp add: update_append_fresh)
  qed
qed

lemma has_Product_result:
  assumes "distinct (map fst (products c))"
  shows "has_Product c g =
     Inr (c\<lparr>products := pruned_products c\<rparr>,
          if usable_products c = [] then None
          else Some (get_type (usable_products c ! (g 0 mod length (usable_products c)))),
          if usable_products c = [] then g else advance g)"
proof -
  have "has_Product_loop (map fst (product_rules c)) (map fst (products c)) (products c) [] =
      Inr (pruned_products c, usable_products c)"
    using has_Product_loop_entries [of "[]" "products c" "map fst (product_rules c)" "[]"] assms
    by (simp add: pruned_products_def usable_products_def)
  then show ?thesis
    by (simp add: has_Product_def sample1_def)
qed

lemma map_of_pruned:
  "map_of (map (\<lambda>e. if fst e \<in> A then e else (fst e, [])) es) t =
     (case map_of es t of None \<Rightarrow> None
      | Some stack \<Rightarrow> Some (if t \<in> A then stack else []))"
  by (induction es) auto

lemma usable_in_stack:
  assumes "p \<in> set (usable_products c)"
  shows "\<exists>t stack. (t, stack) \<in> set (products c) \<and> t \<in> set (map fst (product_rules c)) \<and>
           p \<in> set stack"
  using assms by (auto simp: usable_products_def)

lemma count_type_usable:
  assumes inv: "inventory_by_type c"
    and el: "t \<in> set (map fst (product_rules c))"
  shows "length (filter (\<lambda>p. get_type p = t) (usable_products c)) =
         length (case map_of (products c) t of None \<Rightarrow> [] | Some stack \<Rightarrow> stack)"
proof -
  let ?P = "\<lambda>p. get_type p = t"
  let ?E = "\<lambda>k. k \<in> set (map fst (product_rules c))"
  let ?g = "\<lambda>(k::int) stack. if ?E k then length (filter ?P stack) else 0"
  from inv have d: "distinct (map fst (products c))"
    and ty: "\<And>k stack p. map_of (products c) k = Some stack \<Longrightarrow> p \<in> set stack \<Longrightarrow>
        get_type p = k"
    by (auto simp: inventory_by_type_def)
  have z: "?g k stack = 0" if "(k, stack) \<in> set (products c)" "k \<noteq> t" for k stack
  proof -
    from that(1) d have "map_of (products c) k = Some stack" by simp
    with ty that(2) show ?thesis by (auto simp: filter_empty_conv)
  qed
  have "length (filter ?P (usable_products c)) =
      sum_list (map (\<lambda>e. ?g (fst e) (snd e)) (products c))"
    unfolding usable_products_def length_filter_concat
    by (simp add: comp_def sum_list_map_filter')
  also have "\<dots> = (case map_of (products c) t of None \<Rightarrow> 0 | Some stack \<Rightarrow> ?g t stack)"
    using d z by (rule sum_single_key)
  finally have s: "length (filter ?P (usable_products c)) =
      (case map_of (products c) t of None \<Rightarrow> 0 | Some stack \<Rightarrow> ?g t stack)" .
  show ?thesis
  proof (cases "map_of (products c) t")
    case None
    with s show ?thesis by simp
  next
    case (Some stack)
    with ty have "filter ?P stack = stack" by (auto simp: filter_id_conv)
    with s Some el show ?thesis by simp
  qed
qed

lemma has_rule_ByType: "has_rule c (ByType t) \<longleftrightarrow> t \<in> set (map fst (product_rules c))"
  by (auto simp: has_rule_def)

lemma keys_pruned: "map fst (pruned_products c) = map fst (products c)"
  by (induction "products c") (auto simp: pruned_products_def)

lemma inventory_by_type_cell_S: "inventory_by_type cell_S"
  by (auto simp: inventory_by_type_def cell_S_def new_Cell_def token_def get_type_def
      split: if_splits)

lemma usable_products_cell_S:
  "usable_products cell_S = [token 0 1, token 1 1, token 2 1, token 3 3]"
  by (simp add: usable_products_def cell_S_def new_Cell_def)

lemma pruned_products_cell_S:
  "pruned_products cell_S =
     [(1, [token 0 1, token 1 1, token 2 1]), (3, [token 3 3]), (7, [])]"
  by (simp add: pruned_products_def cell_S_def new_Cell_def)

subsection \<open>Reproduction followed by extinction\<close>

lemma in_network_rules:
  "(owner, rule) \<in> set (network_rules cs) \<longleftrightarrow>
     owner < length cs \<and> rule \<in> set (all_rules (cs ! owner))"
  by (auto simp: network_rules_def)

lemma sample1_nonempty:
  "xs \<noteq> [] \<Longrightarrow> sample1 g xs = Inr (xs ! (g 0 mod length xs), advance g) \<and>
     xs ! (g 0 mod length xs) \<in> set xs"
  by (simp add: sample1_def)

lemma sum_list_update_map:
  fixes f :: "'a \<Rightarrow> 'm::comm_monoid_add"
  shows "i < length xs \<Longrightarrow>
    sum_list (map f (xs[i := y])) + f (xs ! i) = sum_list (map f xs) + f y"
proof (induction xs arbitrary: i)
  case Nil
  then show ?case by simp
next
  case (Cons x xs)
  show ?case
  proof (cases i)
    case 0
    then show ?thesis by (simp add: ac_simps)
  next
    case (Suc j)
    with Cons.prems have "j < length xs" by simp
    from Cons.IH [OF this] have "f x + (sum_list (map f (xs[j := y])) + f (xs ! j)) =
        f x + (sum_list (map f xs) + f y)" by simp
    with Suc show ?thesis by (simp add: add.assoc)
  qed
qed

lemma rule_in_index:
  assumes wf: "cell_wf c" and r: "r \<in> set (all_rules c)"
  shows "\<exists>inner bucket n.
     map_of (product_rules c) (get_input r) = Some inner \<and>
     map_of inner (get_output r) = Some bucket \<and> r \<in> set bucket \<and>
     map_of (product_netrules c) (get_name r) = Some n"
proof -
  from wf have d1: "distinct (map fst (product_rules c))"
    and d2: "\<And>i inner. map_of (product_rules c) i = Some inner \<Longrightarrow> distinct (map fst inner)"
    and m: "\<And>i out. case lookup_bucket (product_rules c) i out of
          None \<Rightarrow> map_of (product_netrules c) (i, out) = None
        | Some bucket \<Rightarrow>
            (\<exists>n. map_of (product_netrules c) (i, out) = Some n \<and>
                 nr_count n = int (length bucket))"
    and st: "stored_by_type c"
    by (auto simp: cell_wf_def aggregates_match_def)
  from r obtain i inner out b where
    e: "(i, inner) \<in> set (product_rules c)" "(out, b) \<in> set inner" "r \<in> set b"
    by (auto simp: all_rules_def rules_of_inner_def)
  from e(1) d1 have m1: "map_of (product_rules c) i = Some inner" by simp
  from e(2) d2 [OF m1] have m2: "map_of inner out = Some b" by simp
  from m1 m2 have lb: "lookup_bucket (product_rules c) i out = Some b"
    by (simp add: lookup_bucket_def)
  with st e(3) have ty: "get_input r = i \<and> get_output r = out"
    unfolding stored_by_type_def by blast
  from m [of i out] lb obtain n where "map_of (product_netrules c) (i, out) = Some n"
    by auto
  with ty have "map_of (product_netrules c) (get_name r) = Some n"
    by (simp add: get_name_def get_input_def get_output_def)
  with m1 m2 e(3) ty show ?thesis by blast
qed

lemma add_all_rules_length:
  assumes "add_ProductRule c net (RuleObj r) = Inr (c', net')"
  shows "length (all_rules c') = length (all_rules c) + 1"
  using assms
    index_size_update [of "get_input r" "get_output r"
      "bucket_of (product_rules c) (get_input r) (get_output r) @ [r]" "product_rules c"]
  by (auto simp: add_ProductRule_result length_all_rules)

lemma add_frame:
  assumes "add_ProductRule c net (RuleObj r) = Inr (c', net')"
  shows "count_rules c' = count_rules c + 1 \<and>
     products c' = products c \<and> active_rule c' = active_rule c \<and>
     repro_type c' = repro_type c \<and> neighbors c' = neighbors c \<and> cell_id c' = cell_id c \<and>
     lookup_bucket (product_rules c') (get_input r) (get_output r) =
       Some (bucket_of (product_rules c) (get_input r) (get_output r) @ [r])"
  using assms by (auto simp: add_ProductRule_result lookup_bucket_update)

lemma remove_index_size:
  assumes am: "aggregates_match c"
    and rm: "remove_ProductRule c net master r = Inr (c', net')"
  shows "index_size (product_rules c') + 1 = index_size (product_rules c)"
proof -
  let ?i = "get_input r" and ?o = "get_output r"
  from remove_ProductRule_InrD [OF rm] obtain inner bucket n where
    l1: "map_of (product_rules c) ?i = Some inner" and
    l2: "map_of inner ?o = Some bucket" and
    l3: "r \<in> set bucket" and
    l4: "map_of (product_netrules c) (get_name r) = Some n"
    by blast
  from am have d1: "distinct (map fst (product_rules c))"
    and d2: "\<And>i inner. map_of (product_rules c) i = Some inner \<Longrightarrow> distinct (map fst inner)"
    by (auto simp: aggregates_match_def)
  have len: "length (remove1 r bucket) + 1 = length bucket"
    using l3 by (simp add: length_remove1) (metis One_nat_def Suc_pred length_pos_if_in_set)
  show ?thesis
  proof (cases "remove1 r bucket = []")
    case True
    have pr: "product_rules c' =
        (if AList.delete ?o inner = [] then AList.delete ?i (product_rules c)
         else AList.update ?i (AList.delete ?o inner) (product_rules c))"
      using rm True by (auto simp: remove_ProductRule_result [OF l1 l2 l3 l4])
    have "index_size (product_rules c') + length bucket = index_size (product_rules c)"
      unfolding pr using d1 l1 d2 [OF l1] l2 by (rule index_size_delete)
    with len True show ?thesis by simp
  next
    case False
    have pr: "product_rules c' =
        AList.update ?i (AList.update ?o (remove1 r bucket) (inner_of (product_rules c) ?i))
          (product_rules c)"
      using rm False
      by (auto simp: remove_ProductRule_result [OF l1 l2 l3 l4] inner_of_Some [OF l1])
    have "index_size (product_rules c') + length bucket =
        index_size (product_rules c) + length (remove1 r bucket)"
      unfolding pr using index_size_update [of ?i ?o "remove1 r bucket" "product_rules c"]
      by (simp add: bucket_of_Some [OF l1 l2])
    with len show ?thesis by simp
  qed
qed

lemma remove_frame:
  assumes "remove_ProductRule c net master r = Inr (c', net')"
  shows "count_rules c' = count_rules c - 1 \<and>
     products c' = products c \<and> active_rule c' = active_rule c \<and>
     repro_type c' = repro_type c \<and> neighbors c' = neighbors c \<and> cell_id c' = cell_id c"
proof -
  from remove_ProductRule_InrD [OF assms] obtain inner bucket n where
    l: "map_of (product_rules c) (get_input r) = Some inner"
      "map_of inner (get_output r) = Some bucket" "r \<in> set bucket"
      "map_of (product_netrules c) (get_name r) = Some n"
    by blast
  from assms show ?thesis
    by (auto simp: remove_ProductRule_result [OF l])
qed

lemma add_preserves_stored:
  assumes st: "stored_by_type c"
    and ad: "add_ProductRule c net (RuleObj r) = Inr (c', net')"
  shows "stored_by_type c'"
proof -
  let ?i = "get_input r" and ?o = "get_output r"
  let ?b = "bucket_of (product_rules c) ?i ?o"
  have pr: "product_rules c' =
      AList.update ?i (AList.update ?o (?b @ [r]) (inner_of (product_rules c) ?i))
        (product_rules c)"
    using ad by (auto simp: add_ProductRule_result)
  have old: "get_input x = ?i \<and> get_output x = ?o" if "x \<in> set ?b" for x
  proof (cases "lookup_bucket (product_rules c) ?i ?o")
    case None
    with that show ?thesis by (simp add: bucket_of_def)
  next
    case (Some b)
    with that have "x \<in> set b" by (simp add: bucket_of_def)
    with st Some show ?thesis unfolding stored_by_type_def by blast
  qed
  have "get_input x = i \<and> get_output x = out"
    if lb: "lookup_bucket (product_rules c') i out = Some bucket" and x: "x \<in> set bucket"
    for i out bucket x
  proof (cases "i = ?i \<and> out = ?o")
    case True
    from lb have "lookup_bucket (product_rules c') ?i ?o = Some bucket"
      by (simp only: True)
    then have "bucket = ?b @ [r]"
      by (simp add: pr lookup_bucket_update)
    with x have "x \<in> set ?b \<or> x = r" by auto
    then have "get_input x = ?i \<and> get_output x = ?o"
      using old by blast
    then show ?thesis by (simp only: True)
  next
    case False
    have "lookup_bucket (product_rules c') i out = lookup_bucket (product_rules c) i out"
      unfolding pr lookup_bucket_update using False by auto
    with lb have "lookup_bucket (product_rules c) i out = Some bucket" by simp
    with st x show ?thesis unfolding stored_by_type_def by blast
  qed
  then show ?thesis unfolding stored_by_type_def by blast
qed

lemma add_preserves_wf:
  "cell_wf c \<Longrightarrow> add_ProductRule c net (RuleObj r) = Inr (c', net') \<Longrightarrow> cell_wf c'"
  unfolding cell_wf_def using add_preserves_match add_preserves_stored by blast

lemma remove_random_rule_steps:
  assumes wf: "net_wf w" and ne: "network_rules (cells w) \<noteq> []"
  obtains owner rule c2 net2 where
    "owner < length (cells w)"
    "rule \<in> set (all_rules (cells w ! owner))"
    "(owner, rule) =
       network_rules (cells w) ! (generator w 0 mod length (network_rules (cells w)))"
    "remove_ProductRule (cells w ! owner) (productRule_Net w) (master_count w) rule =
       Inr (c2, net2)"
    "remove_random_rule w =
       Inr (w\<lparr>cells := (cells w)[owner := c2], productRule_Net := net2,
              generator := advance (generator w)\<rparr>)"
proof -
  let ?xs = "network_rules (cells w)"
  let ?p = "?xs ! (generator w 0 mod length ?xs)"
  obtain owner rule where p: "?p = (owner, rule)" by (cases ?p)
  from sample1_nonempty [OF ne, of "generator w"]
  have s: "sample1 (generator w) ?xs = Inr ((owner, rule), advance (generator w))"
    and m: "(owner, rule) \<in> set ?xs"
    by (simp_all add: p)
  from m have o: "owner < length (cells w)" and r: "rule \<in> set (all_rules (cells w ! owner))"
    by (simp_all add: in_network_rules)
  from wf o have cw: "cell_wf (cells w ! owner)"
    by (simp add: net_wf_def)
  from rule_in_index [OF cw r] obtain inner bucket n where
    l: "map_of (product_rules (cells w ! owner)) (get_input rule) = Some inner"
      "map_of inner (get_output rule) = Some bucket" "rule \<in> set bucket"
      "map_of (product_netrules (cells w ! owner)) (get_name rule) = Some n"
    by blast
  from remove_ProductRule_result [OF l, of "productRule_Net w" "master_count w"]
  obtain c2 net2 where
    rm: "remove_ProductRule (cells w ! owner) (productRule_Net w) (master_count w) rule =
       Inr (c2, net2)"
    by blast
  have "remove_random_rule w =
       Inr (w\<lparr>cells := (cells w)[owner := c2], productRule_Net := net2,
              generator := advance (generator w)\<rparr>)"
    by (simp add: remove_random_rule_def s rm)
  with o r p rm show ?thesis by (intro that [of owner rule c2 net2]) simp_all
qed

lemma total_rule_count_update:
  "i < length (cells w) \<Longrightarrow>
   total_rule_count (w\<lparr>cells := (cells w)[i := c]\<rparr>) + length (all_rules (cells w ! i)) =
   total_rule_count w + length (all_rules c)"
  unfolding total_rule_count_def
  using sum_list_update_map [of i "cells w" "\<lambda>c. length (all_rules c)" c] by simp

lemma total_count_rules_update:
  "i < length (cells w) \<Longrightarrow>
   total_count_rules (w\<lparr>cells := (cells w)[i := c]\<rparr>) + count_rules (cells w ! i) =
   total_count_rules w + count_rules c"
  unfolding total_count_rules_def
  using sum_list_update_map [of i "cells w" count_rules c] by simp

lemma net_wf_update:
  "net_wf w \<Longrightarrow> cell_wf c \<Longrightarrow> net_wf (w\<lparr>cells := (cells w)[i := c]\<rparr>)"
  unfolding net_wf_def using set_update_subset_insert [of "cells w" i c] by auto

lemma reproduce_steps:
  assumes wf: "net_wf w" and i: "self < length (cells w)"
    and a: "active_rule (cells w ! self) = Some r"
  obtains c1 net1 owner rule c2 net2 where
    "add_ProductRule (cells w ! self) (productRule_Net w)
       (RuleObj (new_ProductRule (next_ident w) (get_input r) (get_output r))) =
       Inr (c1, net1)"
    "owner < length (cells w)"
    "rule \<in> set (all_rules ((cells w)[self := c1] ! owner))"
    "(owner, rule) = network_rules ((cells w)[self := c1]) !
       (generator w 0 mod length (network_rules ((cells w)[self := c1])))"
    "remove_ProductRule ((cells w)[self := c1] ! owner) net1 (master_count w) rule =
       Inr (c2, net2)"
    "cell_wf c1"
    "reproduce_active_rule w self =
       Inr ((reproduced w self c1 net1)
              \<lparr>cells := (cells w)[self := c1, owner := c2], productRule_Net := net2,
               generator := advance (generator w)\<rparr>)"
proof -
  let ?new = "new_ProductRule (next_ident w) (get_input r) (get_output r)"
  obtain c1 net1 where
    ad: "add_ProductRule (cells w ! self) (productRule_Net w) (RuleObj ?new) = Inr (c1, net1)"
    using add_ProductRule_result [of "cells w ! self" "productRule_Net w" ?new] by blast
  let ?w1 = "reproduced w self c1 net1"
  from wf i have "cell_wf (cells w ! self)" by (simp add: net_wf_def)
  from add_preserves_wf [OF this ad] have c1: "cell_wf c1" .
  have cs1: "cells ?w1 = (cells w)[self := c1]" "productRule_Net ?w1 = net1"
    "master_count ?w1 = master_count w" "generator ?w1 = generator w"
    by (simp_all add: reproduced_def)
  have wf1: "net_wf ?w1"
    using net_wf_update [OF wf c1, of self] by (simp add: net_wf_def reproduced_def)
  from add_all_rules_length [OF ad] have "all_rules c1 \<noteq> []" by auto
  then obtain x where "x \<in> set (all_rules c1)" by (cases "all_rules c1") auto
  with i have "(self, x) \<in> set (network_rules (cells ?w1))"
    by (simp add: in_network_rules cs1)
  then have ne: "network_rules (cells ?w1) \<noteq> []" by auto
  from remove_random_rule_steps [OF wf1 ne] obtain owner rule c2 net2 where
    s: "owner < length (cells ?w1)"
      "rule \<in> set (all_rules (cells ?w1 ! owner))"
      "(owner, rule) =
         network_rules (cells ?w1) ! (generator ?w1 0 mod length (network_rules (cells ?w1)))"
      "remove_ProductRule (cells ?w1 ! owner) (productRule_Net ?w1) (master_count ?w1) rule =
         Inr (c2, net2)"
      "remove_random_rule ?w1 =
         Inr (?w1\<lparr>cells := (cells ?w1)[owner := c2], productRule_Net := net2,
               generator := advance (generator ?w1)\<rparr>)"
    by blast
  have "reproduce_active_rule w self =
       Inr (?w1\<lparr>cells := (cells w)[self := c1, owner := c2], productRule_Net := net2,
               generator := advance (generator w)\<rparr>)"
    using s(5) by (simp add: reproduce_active_rule_def a ad cs1)
  with ad s(1-4) c1 show ?thesis
    by (intro that [of c1 net1 owner rule c2 net2]) (simp_all add: cs1)
qed

lemma reproduce_totals:
  assumes i: "self < length cs" and o: "owner < length cs"
    and ad: "add_ProductRule (cs ! self) net (RuleObj r) = Inr (c1, net1)"
    and wf1: "cell_wf (cs[self := c1] ! owner)"
    and rm: "remove_ProductRule (cs[self := c1] ! owner) net1 master rule = Inr (c2, net2)"
    and w': "cells w' = cs[self := c1, owner := c2]" and w: "cells w = cs"
  shows "total_rule_count w' = total_rule_count w \<and> total_count_rules w' = total_count_rules w"
proof -
  let ?f = "\<lambda>c. length (all_rules c)"
  let ?cs1 = "cs[self := c1]"
  have a1: "sum_list (map ?f ?cs1) + ?f (cs ! self) = sum_list (map ?f cs) + ?f c1"
    using i by (rule sum_list_update_map)
  have a2: "sum_list (map ?f (?cs1[owner := c2])) + ?f (?cs1 ! owner) =
      sum_list (map ?f ?cs1) + ?f c2"
    using o by (intro sum_list_update_map) simp
  have b1: "sum_list (map count_rules ?cs1) + count_rules (cs ! self) =
      sum_list (map count_rules cs) + count_rules c1"
    using i by (rule sum_list_update_map)
  have b2: "sum_list (map count_rules (?cs1[owner := c2])) + count_rules (?cs1 ! owner) =
      sum_list (map count_rules ?cs1) + count_rules c2"
    using o by (intro sum_list_update_map) simp
  have l1: "?f c1 = ?f (cs ! self) + 1" using ad by (rule add_all_rules_length)
  from wf1 have "aggregates_match (?cs1 ! owner)" by (simp add: cell_wf_def)
  from remove_index_size [OF this rm] have l2: "?f c2 + 1 = ?f (?cs1 ! owner)"
    by (simp add: length_all_rules)
  have k1: "count_rules c1 = count_rules (cs ! self) + 1" using add_frame [OF ad] by simp
  have k2: "count_rules c2 = count_rules (?cs1 ! owner) - 1" using remove_frame [OF rm] by simp
  from a1 a2 l1 l2 have "sum_list (map ?f (?cs1[owner := c2])) = sum_list (map ?f cs)"
    by linarith
  moreover from b1 b2 k1 k2
  have "sum_list (map count_rules (?cs1[owner := c2])) = sum_list (map count_rules cs)"
    by linarith
  ultimately show ?thesis
    by (simp add: total_rule_count_def total_count_rules_def w w')
qed

text \<open>
  Well-formedness is no extra demand on the cells of a run: every cell that arises from
  a cell without rules by the two bookkeeping methods is well formed.
\<close>

lemma remove_preserves_stored:
  assumes st: "stored_by_type c"
    and rm: "remove_ProductRule c net master r = Inr (c', net')"
  shows "stored_by_type c'"
proof -
  let ?i = "get_input r" and ?o = "get_output r"
  from remove_ProductRule_InrD [OF rm] obtain inner bucket n where
    l1: "map_of (product_rules c) ?i = Some inner" and
    l2: "map_of inner ?o = Some bucket" and
    l3: "r \<in> set bucket" and
    l4: "map_of (product_netrules c) (get_name r) = Some n"
    by blast
  have lb: "lookup_bucket (product_rules c) ?i ?o = Some bucket"
    using l1 l2 by (simp add: lookup_bucket_def)
  have sub: "\<exists>b. lookup_bucket (product_rules c) i out = Some b \<and> set bucket' \<subseteq> set b"
    if lb': "lookup_bucket (product_rules c') i out = Some bucket'" for i out bucket'
  proof (cases "remove1 r bucket = []")
    case True
    have pr: "product_rules c' =
        (if AList.delete ?o inner = [] then AList.delete ?i (product_rules c)
         else AList.update ?i (AList.delete ?o inner) (product_rules c))"
      using rm True by (auto simp: remove_ProductRule_result [OF l1 l2 l3 l4])
    from lb' have "(if i = ?i \<and> out = ?o then None else lookup_bucket (product_rules c) i out) =
        Some bucket'"
      by (simp only: pr lookup_bucket_delete [OF l1])
    then have "lookup_bucket (product_rules c) i out = Some bucket'"
      by (simp split: if_splits)
    then show ?thesis by blast
  next
    case False
    have pr: "product_rules c' =
        AList.update ?i (AList.update ?o (remove1 r bucket) (inner_of (product_rules c) ?i))
          (product_rules c)"
      using rm False
      by (auto simp: remove_ProductRule_result [OF l1 l2 l3 l4] inner_of_Some [OF l1])
    from lb' have e: "(if i = ?i \<and> out = ?o then Some (remove1 r bucket)
        else lookup_bucket (product_rules c) i out) = Some bucket'"
      by (simp only: pr lookup_bucket_update)
    show ?thesis
    proof (cases "i = ?i \<and> out = ?o")
      case True
      with e have "bucket' = remove1 r bucket" by simp
      then have "set bucket' \<subseteq> set bucket" by (simp add: set_remove1_subset)
      with lb True show ?thesis by blast
    next
      case False
      with e have "lookup_bucket (product_rules c) i out = Some bucket'" by simp
      then show ?thesis by blast
    qed
  qed
  show ?thesis
    unfolding stored_by_type_def
  proof (intro allI impI ballI)
    fix i out bucket' x
    assume "lookup_bucket (product_rules c') i out = Some bucket'" and x: "x \<in> set bucket'"
    from sub [OF this(1)] obtain b where
      b: "lookup_bucket (product_rules c) i out = Some b" "set bucket' \<subseteq> set b"
      by blast
    from b(2) x have "x \<in> set b" by blast
    with st b(1) show "get_input x = i \<and> get_output x = out"
      unfolding stored_by_type_def by blast
  qed
qed

lemma reachable_cell_wf: "reachable c \<Longrightarrow> cell_wf c"
proof (induction rule: reachable.induct)
  case (fresh c)
  then have "stored_by_type c" by (simp add: stored_by_type_def lookup_bucket_def)
  with reachable_invariant [OF reachable.fresh [OF fresh]] show ?case
    by (simp add: cell_wf_def)
next
  case (added c net a c' net')
  show ?case
  proof (cases a)
    case OtherObj
    with added.hyps(2) show ?thesis by (simp add: add_ProductRule_Other)
  next
    case (RuleObj r)
    with added show ?thesis using add_preserves_wf by blast
  qed
next
  case (removed c net master r c' net')
  then show ?case
    unfolding cell_wf_def using remove_preserves_match_counts remove_preserves_stored by blast
next
  case (other c c')
  have "stored_by_type c' = stored_by_type c"
    unfolding stored_by_type_def other.hyps(2) by (rule refl)
  moreover have "aggregates_match c' = aggregates_match c"
    unfolding aggregates_match_def other.hyps(2,3) by (rule refl)
  ultimately show ?case using other.IH by (simp add: cell_wf_def)
qed

subsection \<open>The receive phase\<close>

lemma add_Product_frame:
  "product_rules (add_Product c p) = product_rules c \<and>
   product_netrules (add_Product c p) = product_netrules c \<and>
   count_rules (add_Product c p) = count_rules c \<and>
   active_rule (add_Product c p) = active_rule c \<and>
   all_rules (add_Product c p) = all_rules c \<and>
   map_of (products (add_Product c p)) (get_type p) =
     Some ((case map_of (products c) (get_type p) of None \<Rightarrow> [] | Some s \<Rightarrow> s) @ [p])"
  by (simp add: add_Product_def all_rules_def update_conv' split: option.splits)

lemma products_add_Product_cong:
  "products c = products c' \<Longrightarrow> products (add_Product c p) = products (add_Product c' p)"
  by (simp add: add_Product_def split: option.splits)

lemma cell_wf_active_rule: "cell_wf (c\<lparr>active_rule := v\<rparr>) = cell_wf c"
  by (simp add: cell_wf_def aggregates_match_def stored_by_type_def cong: option.case_cong)

lemma all_rules_active_rule: "all_rules (c\<lparr>active_rule := v\<rparr>) = all_rules c"
  by (simp add: all_rules_def)

lemma total_rule_count_cong:
  assumes "length (cells w') = length (cells w)"
    and "\<And>j. j < length (cells w) \<Longrightarrow> all_rules (cells w' ! j) = all_rules (cells w ! j)"
  shows "total_rule_count w' = total_rule_count w"
proof -
  have "map (\<lambda>c. length (all_rules c)) (cells w') = map (\<lambda>c. length (all_rules c)) (cells w)"
    using assms by (intro nth_equalityI) simp_all
  then show ?thesis by (simp add: total_rule_count_def)
qed

lemma cells_frame:
  assumes ad: "add_ProductRule (cs ! s) net (RuleObj r) = Inr (c1, net1)"
    and rm: "remove_ProductRule (cs[s := c1] ! owner) net1 master rule = Inr (c2, net2)"
    and s: "s < length cs" and o: "owner < length cs" and j: "j < length cs"
  shows "products (cs[s := c1, owner := c2] ! j) = products (cs ! j) \<and>
         active_rule (cs[s := c1, owner := c2] ! j) = active_rule (cs ! j) \<and>
         repro_type (cs[s := c1, owner := c2] ! j) = repro_type (cs ! j)"
proof -
  from add_frame [OF ad] have a: "products c1 = products (cs ! s)"
    "active_rule c1 = active_rule (cs ! s)" "repro_type c1 = repro_type (cs ! s)"
    by simp_all
  from remove_frame [OF rm] have b: "products c2 = products (cs[s := c1] ! owner)"
    "active_rule c2 = active_rule (cs[s := c1] ! owner)"
    "repro_type c2 = repro_type (cs[s := c1] ! owner)"
    by simp_all
  show ?thesis
  proof (cases "j = owner")
    case True
    with o s a b show ?thesis by (cases "owner = s") (simp_all add: nth_list_update)
  next
    case False
    with j s a show ?thesis by (cases "j = s") (simp_all add: nth_list_update)
  qed
qed

lemma accepting_rule:
  assumes wf: "cell_wf c" and x: "x \<in> set (all_rules c)"
  shows "has_rule c (ByType (get_input x)) \<and>
     (\<exists>inner. map_of (product_rules c) (get_input x) = Some inner \<and>
        x \<in> set (rules_of_inner inner))"
proof -
  from rule_in_index [OF wf x] obtain inner bucket where
    l: "map_of (product_rules c) (get_input x) = Some inner"
      "map_of inner (get_output x) = Some bucket" "x \<in> set bucket"
    by blast
  from l(2) have "(get_output x, bucket) \<in> set inner" by (rule map_of_SomeD)
  with l(3) have "x \<in> set (rules_of_inner inner)" by (force simp: rules_of_inner_def)
  moreover from l(1) have "get_input x \<in> set (map fst (product_rules c))"
    using map_of_Some_key [OF l(1)] by simp
  ultimately show ?thesis using l(1) by (simp add: has_rule_ByType)
qed

lemma rules_of_inner_typed:
  assumes wf: "cell_wf c" and m: "map_of (product_rules c) t = Some inner"
    and r: "r \<in> set (rules_of_inner inner)"
  shows "get_input r = t \<and> r \<in> set (all_rules c)"
proof -
  from wf have d2: "distinct (map fst inner)" and st: "stored_by_type c"
    using m by (auto simp: cell_wf_def aggregates_match_def)
  from r obtain out b where e: "(out, b) \<in> set inner" "r \<in> set b"
    by (auto simp: rules_of_inner_def)
  from e(1) d2 have "map_of inner out = Some b" by simp
  with m have "lookup_bucket (product_rules c) t out = Some b" by (simp add: lookup_bucket_def)
  with st e(2) have "get_input r = t" unfolding stored_by_type_def by blast
  moreover from m have "(t, inner) \<in> set (product_rules c)" by (rule map_of_SomeD)
  with r have "r \<in> set (all_rules c)" by (force simp: all_rules_def)
  ultimately show ?thesis by simp
qed

lemma received_cells_facts:
  assumes ad: "add_ProductRule (cs ! s) net (RuleObj r) = Inr (c1, net1)"
    and rm: "remove_ProductRule (cs[s := c1] ! owner) net1 master rule = Inr (c2, net2)"
    and s: "s < length cs" and o: "owner < length cs" and t: "t < length cs"
  shows "length (received_cells cs s c1 owner c2 t p) = length cs"
    and "active_rule (received_cells cs s c1 owner c2 t p ! s) = None"
    and "products (received_cells cs s c1 owner c2 t p ! t) = products (add_Product (cs ! t) p)"
    and "\<And>j. j < length cs \<Longrightarrow>
          all_rules (received_cells cs s c1 owner c2 t p ! j) =
          all_rules (cs[s := c1, owner := c2] ! j)"
    and "t \<noteq> s \<Longrightarrow> owner \<noteq> t \<Longrightarrow>
          product_rules (received_cells cs s c1 owner c2 t p ! t) = product_rules (cs ! t) \<and>
          product_netrules (received_cells cs s c1 owner c2 t p ! t) = product_netrules (cs ! t) \<and>
          count_rules (received_cells cs s c1 owner c2 t p ! t) = count_rules (cs ! t)"
    and "t \<noteq> s \<Longrightarrow> owner = t \<Longrightarrow>
          product_rules (received_cells cs s c1 owner c2 t p ! t) = product_rules c2 \<and>
          product_netrules (received_cells cs s c1 owner c2 t p ! t) = product_netrules c2 \<and>
          count_rules (received_cells cs s c1 owner c2 t p ! t) = count_rules c2"
proof -
  let ?cs2 = "cs[s := c1, owner := c2]"
  let ?cs3 = "?cs2[s := (?cs2 ! s)\<lparr>active_rule := None\<rparr>]"
  have rc: "received_cells cs s c1 owner c2 t p = ?cs3[t := add_Product (?cs3 ! t) p]"
    by (simp add: received_cells_def Let_def)
  show "length (received_cells cs s c1 owner c2 t p) = length cs" by (simp add: rc)
  have a3: "active_rule (?cs3 ! s) = None" using s by simp
  show "active_rule (received_cells cs s c1 owner c2 t p ! s) = None"
    unfolding rc using s t a3 by (cases "t = s") (simp_all add: add_Product_frame)
  have p3: "products (?cs3 ! t) = products (?cs2 ! t)"
    using s t by (cases "t = s") simp_all
  have "products (?cs2 ! t) = products (cs ! t)"
    using cells_frame [OF ad rm s o t] by simp
  with p3 have "products (?cs3 ! t) = products (cs ! t)" by simp
  from products_add_Product_cong [OF this]
  show "products (received_cells cs s c1 owner c2 t p ! t) = products (add_Product (cs ! t) p)"
    unfolding rc using t by simp
  have r3: "product_rules (?cs3 ! j) = product_rules (?cs2 ! j) \<and>
      product_netrules (?cs3 ! j) = product_netrules (?cs2 ! j) \<and>
      count_rules (?cs3 ! j) = count_rules (?cs2 ! j)" if "j < length cs" for j
    using that s by (cases "j = s") simp_all
  have r4: "product_rules (received_cells cs s c1 owner c2 t p ! j) = product_rules (?cs2 ! j) \<and>
      product_netrules (received_cells cs s c1 owner c2 t p ! j) = product_netrules (?cs2 ! j) \<and>
      count_rules (received_cells cs s c1 owner c2 t p ! j) = count_rules (?cs2 ! j)"
    if "j < length cs" for j
    unfolding rc using that r3 [OF that] by (cases "j = t") (simp_all add: add_Product_frame)
  show "all_rules (received_cells cs s c1 owner c2 t p ! j) = all_rules (?cs2 ! j)"
    if "j < length cs" for j
    using r4 [OF that] by (simp add: all_rules_def)
  show "product_rules (received_cells cs s c1 owner c2 t p ! t) = product_rules (cs ! t) \<and>
        product_netrules (received_cells cs s c1 owner c2 t p ! t) = product_netrules (cs ! t) \<and>
        count_rules (received_cells cs s c1 owner c2 t p ! t) = count_rules (cs ! t)"
    if "t \<noteq> s" "owner \<noteq> t"
    using r4 [OF t] that by simp
  show "product_rules (received_cells cs s c1 owner c2 t p ! t) = product_rules c2 \<and>
        product_netrules (received_cells cs s c1 owner c2 t p ! t) = product_netrules c2 \<and>
        count_rules (received_cells cs s c1 owner c2 t p ! t) = count_rules c2"
    if "t \<noteq> s" "owner = t"
    using r4 [OF t] that t by simp
qed

lemma receive_source:
  assumes wf: "net_wf w" and s: "sender < length (cells w)" and t: "self < length (cells w)"
    and hr: "has_rule (cells w ! self) (ByType (get_type p))"
    and pol: "repro_type (cells w ! self) = ''source''"
    and a: "active_rule (cells w ! sender) = Some r"
  obtains c1 net1 owner rule c2 net2 w' where
    "add_ProductRule (cells w ! sender) (productRule_Net w)
       (RuleObj (new_ProductRule (next_ident w) (get_input r) (get_output r))) =
       Inr (c1, net1)"
    "owner < length (cells w)"
    "rule \<in> set (all_rules ((cells w)[sender := c1] ! owner))"
    "(owner, rule) = network_rules ((cells w)[sender := c1]) !
       (generator w 0 mod length (network_rules ((cells w)[sender := c1])))"
    "remove_ProductRule ((cells w)[sender := c1] ! owner) net1 (master_count w + 1) rule =
       Inr (c2, net2)"
    "cell_wf c1"
    "receive_product w sender self p = Inr w'"
    "w' = w\<lparr>cells := received_cells (cells w) sender c1 owner c2 self p,
            master_count := master_count w + 1, last_added_rule := master_count w + 1,
            productRule_Net := net2, generator := advance (generator w),
            next_ident := Suc (next_ident w)\<rparr>"
proof -
  let ?w1 = "w\<lparr>master_count := master_count w + 1\<rparr>"
  have wf1: "net_wf ?w1" using wf by (simp add: net_wf_def)
  have s1: "sender < length (cells ?w1)" using s by simp
  have a1: "active_rule (cells ?w1 ! sender) = Some r" using a by simp
  obtain c1 net1 owner rule c2 net2 where
    f: "add_ProductRule (cells ?w1 ! sender) (productRule_Net ?w1)
       (RuleObj (new_ProductRule (next_ident ?w1) (get_input r) (get_output r))) =
       Inr (c1, net1)"
    "owner < length (cells ?w1)"
    "rule \<in> set (all_rules ((cells ?w1)[sender := c1] ! owner))"
    "(owner, rule) = network_rules ((cells ?w1)[sender := c1]) !
       (generator ?w1 0 mod length (network_rules ((cells ?w1)[sender := c1])))"
    "remove_ProductRule ((cells ?w1)[sender := c1] ! owner) net1 (master_count ?w1) rule =
       Inr (c2, net2)"
    "cell_wf c1"
    "reproduce_active_rule ?w1 sender =
       Inr ((reproduced ?w1 sender c1 net1)
              \<lparr>cells := (cells ?w1)[sender := c1, owner := c2], productRule_Net := net2,
               generator := advance (generator ?w1)\<rparr>)"
    by (rule reproduce_steps [OF wf1 s1 a1])
  let ?W2 = "(reproduced ?w1 sender c1 net1)
              \<lparr>cells := (cells ?w1)[sender := c1, owner := c2], productRule_Net := net2,
               generator := advance (generator ?w1)\<rparr>"
  let ?W3 = "assign_active_rule ?W2 sender None"
  let ?w' = "?W3\<lparr>cells := (cells ?W3)[self := add_Product (cells ?W3 ! self) p]\<rparr>"
  have hr1: "has_rule (cells ?w1 ! self) (ByType (get_type p))" using hr by simp
  have pol1: "repro_type (cells ?w1 ! self) = ''source''" using pol by simp
  have rc: "receive_product w sender self p = Inr ?w'"
    unfolding receive_product_def Let_def
    by (simp only: hr1 pol1 f(7) if_True) simp
  have cw: "?w' = w\<lparr>cells := received_cells (cells w) sender c1 owner c2 self p,
            master_count := master_count w + 1, last_added_rule := master_count w + 1,
            productRule_Net := net2, generator := advance (generator w),
            next_ident := Suc (next_ident w)\<rparr>"
    unfolding received_cells_def Let_def assign_active_rule_def reproduced_def
    by (simp del: nth_list_update nth_list_update_eq nth_list_update_neq list_update_overwrite)
  from f(1-6) rc cw show ?thesis
    by (intro that [of c1 net1 owner rule c2 net2 ?w']) simp_all
qed


lemma receive_target:
  assumes wf: "net_wf w" and t: "self < length (cells w)"
    and x: "x \<in> set (all_rules (cells w ! self))" and xt: "get_input x = get_type p"
    and pol: "repro_type (cells w ! self) = ''target''"
  obtains inner r c1 net1 owner rule c2 net2 w' where
    "map_of (product_rules (cells w ! self)) (get_type p) = Some inner"
    "rules_of_inner inner \<noteq> []"
    "r = rules_of_inner inner ! (generator w 0 mod length (rules_of_inner inner))"
    "get_random_rule_of_type (cells w ! self) (generator w) (get_type p) =
       Inr (r, advance (generator w))"
    "add_ProductRule ((cells w ! self)\<lparr>active_rule := Some r\<rparr>) (productRule_Net w)
       (RuleObj (new_ProductRule (next_ident w) (get_input r) (get_output r))) =
       Inr (c1, net1)"
    "owner < length (cells w)"
    "rule \<in> set (all_rules ((cells w)[self := c1] ! owner))"
    "(owner, rule) = network_rules ((cells w)[self := c1]) !
       (generator w 1 mod length (network_rules ((cells w)[self := c1])))"
    "remove_ProductRule ((cells w)[self := c1] ! owner) net1 (master_count w + 1) rule =
       Inr (c2, net2)"
    "cell_wf c1"
    "receive_product w sender self p = Inr w'"
    "w' = w\<lparr>cells := received_cells
                       ((cells w)[self := (cells w ! self)\<lparr>active_rule := Some r\<rparr>])
                       self c1 owner c2 self p,
            master_count := master_count w + 1, last_added_rule := master_count w + 1,
            productRule_Net := net2, generator := advance (advance (generator w)),
            next_ident := Suc (next_ident w)\<rparr>"
proof -
  let ?c = "cells w ! self"
  from wf t have cw: "cell_wf ?c" by (simp add: net_wf_def)
  from accepting_rule [OF cw x] xt obtain inner where
    hr: "has_rule ?c (ByType (get_type p))"
    and m: "map_of (product_rules ?c) (get_type p) = Some inner"
    and xi: "x \<in> set (rules_of_inner inner)"
    by auto
  from xi have ne: "rules_of_inner inner \<noteq> []" by auto
  let ?r = "rules_of_inner inner ! (generator w 0 mod length (rules_of_inner inner))"
  have gr: "get_random_rule_of_type ?c (generator w) (get_type p) =
      Inr (?r, advance (generator w))"
    using sample1_nonempty [OF ne, of "generator w"]
    by (simp add: get_random_rule_of_type_def m)
  let ?w1 = "w\<lparr>master_count := master_count w + 1\<rparr>"
  let ?w1a = "assign_active_rule (?w1\<lparr>generator := advance (generator w)\<rparr>) self (Some ?r)"
  have cs: "cells ?w1a = (cells w)[self := ?c\<lparr>active_rule := Some ?r\<rparr>]"
    by (simp add: assign_active_rule_def)
  have wf1: "net_wf ?w1a"
    using net_wf_update [OF wf, of "?c\<lparr>active_rule := Some ?r\<rparr>" self] cw
    by (simp add: net_wf_def cs cell_wf_active_rule)
  have s1: "self < length (cells ?w1a)" using t by (simp add: cs)
  have a1: "active_rule (cells ?w1a ! self) = Some ?r" using t by (simp add: cs)
  obtain c1 net1 owner rule c2 net2 where
    f: "add_ProductRule (cells ?w1a ! self) (productRule_Net ?w1a)
       (RuleObj (new_ProductRule (next_ident ?w1a) (get_input ?r) (get_output ?r))) =
       Inr (c1, net1)"
    "owner < length (cells ?w1a)"
    "rule \<in> set (all_rules ((cells ?w1a)[self := c1] ! owner))"
    "(owner, rule) = network_rules ((cells ?w1a)[self := c1]) !
       (generator ?w1a 0 mod length (network_rules ((cells ?w1a)[self := c1])))"
    "remove_ProductRule ((cells ?w1a)[self := c1] ! owner) net1 (master_count ?w1a) rule =
       Inr (c2, net2)"
    "cell_wf c1"
    "reproduce_active_rule ?w1a self =
       Inr ((reproduced ?w1a self c1 net1)
              \<lparr>cells := (cells ?w1a)[self := c1, owner := c2], productRule_Net := net2,
               generator := advance (generator ?w1a)\<rparr>)"
    by (rule reproduce_steps [OF wf1 s1 a1])
  let ?W2 = "(reproduced ?w1a self c1 net1)
              \<lparr>cells := (cells ?w1a)[self := c1, owner := c2], productRule_Net := net2,
               generator := advance (generator ?w1a)\<rparr>"
  let ?W3 = "assign_active_rule ?W2 self None"
  let ?w' = "?W3\<lparr>cells := (cells ?W3)[self := add_Product (cells ?W3 ! self) p]\<rparr>"
  have fields: "productRule_Net ?w1a = productRule_Net w" "next_ident ?w1a = next_ident w"
    "master_count ?w1a = master_count w + 1"
    by (simp_all add: assign_active_rule_def)
  have hr1: "has_rule (cells ?w1 ! self) (ByType (get_type p))" using hr by simp
  have pol1: "repro_type (cells ?w1 ! self) = ''target''" using pol by simp
  have gr1: "get_random_rule_of_type (cells ?w1 ! self) (generator ?w1) (get_type p) =
      Inr (?r, advance (generator w))"
    using gr by simp
  have rc: "receive_product w sender self p = Inr ?w'"
    unfolding receive_product_def Let_def
    by (simp only: hr1 pol1 gr1 if_True sum.case prod.case f(7)) simp
  have cw': "?w' = w\<lparr>cells := received_cells
                       ((cells w)[self := ?c\<lparr>active_rule := Some ?r\<rparr>])
                       self c1 owner c2 self p,
            master_count := master_count w + 1, last_added_rule := master_count w + 1,
            productRule_Net := net2, generator := advance (advance (generator w)),
            next_ident := Suc (next_ident w)\<rparr>"
    unfolding received_cells_def Let_def assign_active_rule_def reproduced_def
    by (simp del: nth_list_update nth_list_update_eq nth_list_update_neq list_update_overwrite)
  have f1: "add_ProductRule (?c\<lparr>active_rule := Some ?r\<rparr>) (productRule_Net w)
       (RuleObj (new_ProductRule (next_ident w) (get_input ?r) (get_output ?r))) =
       Inr (c1, net1)"
    using f(1) t by (simp add: cs fields)
  have f2: "owner < length (cells w)" using f(2) by (simp add: cs)
  have f3: "rule \<in> set (all_rules ((cells w)[self := c1] ! owner))"
    using f(3) by (simp add: cs)
  have f3': "(owner, rule) = network_rules ((cells w)[self := c1]) !
       (generator w 1 mod length (network_rules ((cells w)[self := c1])))"
    using f(4) by (simp add: cs assign_active_rule_def advance_def)
  have f4: "remove_ProductRule ((cells w)[self := c1] ! owner) net1 (master_count w + 1) rule =
       Inr (c2, net2)"
    using f(5) by (simp add: cs fields)
  from m ne gr f1 f2 f3 f3' f4 f(6) rc cw' show ?thesis
    by (intro that [of inner ?r c1 net1 owner rule c2 net2 ?w']) simp_all
qed

lemma cell_wf_nth_update:
  "net_wf w \<Longrightarrow> cell_wf c1 \<Longrightarrow> owner < length (cells w) \<Longrightarrow>
   cell_wf ((cells w)[s := c1] ! owner)"
  by (cases "owner = s") (simp_all add: net_wf_def nth_list_update)

lemma received_cells_rules:
  assumes s: "s < length cs" and j: "j < length cs"
  shows "product_rules (received_cells cs s c1 owner c2 t p ! j) =
           product_rules (cs[s := c1, owner := c2] ! j) \<and>
         product_netrules (received_cells cs s c1 owner c2 t p ! j) =
           product_netrules (cs[s := c1, owner := c2] ! j) \<and>
         count_rules (received_cells cs s c1 owner c2 t p ! j) =
           count_rules (cs[s := c1, owner := c2] ! j)"
proof -
  let ?cs2 = "cs[s := c1, owner := c2]"
  let ?cs3 = "?cs2[s := (?cs2 ! s)\<lparr>active_rule := None\<rparr>]"
  have rc: "received_cells cs s c1 owner c2 t p = ?cs3[t := add_Product (?cs3 ! t) p]"
    by (simp add: received_cells_def Let_def)
  have r3: "product_rules (?cs3 ! j) = product_rules (?cs2 ! j) \<and>
      product_netrules (?cs3 ! j) = product_netrules (?cs2 ! j) \<and>
      count_rules (?cs3 ! j) = count_rules (?cs2 ! j)"
    using j s by (cases "j = s") simp_all
  show ?thesis
    unfolding rc using j r3 by (cases "j = t") (simp_all add: add_Product_frame)
qed

lemma receive_source_facts:
  assumes wf: "net_wf w" and s: "sender < length (cells w)" and t: "self < length (cells w)"
    and hr: "has_rule (cells w ! self) (ByType (get_type p))"
    and pol: "repro_type (cells w ! self) = ''source''"
    and a: "active_rule (cells w ! sender) = Some r"
  shows "\<exists>c1 net1 owner rule c2 net2 w'.
        add_ProductRule (cells w ! sender) (productRule_Net w)
          (RuleObj (new_ProductRule (next_ident w) (get_input r) (get_output r))) =
          Inr (c1, net1) \<and>
        lookup_bucket (product_rules c1) (get_input r) (get_output r) =
          Some (bucket_of (product_rules (cells w ! sender)) (get_input r) (get_output r) @
                [new_ProductRule (next_ident w) (get_input r) (get_output r)]) \<and>
        owner < length (cells w) \<and>
        rule \<in> set (all_rules ((cells w)[sender := c1] ! owner)) \<and>
        (owner, rule) = network_rules ((cells w)[sender := c1]) !
          (generator w 0 mod length (network_rules ((cells w)[sender := c1]))) \<and>
        remove_ProductRule ((cells w)[sender := c1] ! owner) net1 (master_count w + 1) rule =
          Inr (c2, net2) \<and>
        receive_product w sender self p = Inr w' \<and>
        w' = w\<lparr>cells := received_cells (cells w) sender c1 owner c2 self p,
               master_count := master_count w + 1, last_added_rule := master_count w + 1,
               productRule_Net := net2, generator := advance (generator w),
               next_ident := Suc (next_ident w)\<rparr> \<and>
        length (cells w') = length (cells w) \<and>
        active_rule (cells w' ! sender) = None \<and>
        products (cells w' ! self) = products (add_Product (cells w ! self) p) \<and>
        (\<forall>j < length (cells w).
           product_rules (cells w' ! j) =
             product_rules ((cells w)[sender := c1, owner := c2] ! j) \<and>
           product_netrules (cells w' ! j) =
             product_netrules ((cells w)[sender := c1, owner := c2] ! j) \<and>
           count_rules (cells w' ! j) =
             count_rules ((cells w)[sender := c1, owner := c2] ! j)) \<and>
        (owner \<noteq> sender \<longrightarrow>
           product_rules (cells w' ! sender) = product_rules c1 \<and>
           lookup_bucket (product_rules (cells w' ! sender)) (get_input r) (get_output r) =
             Some (bucket_of (product_rules (cells w ! sender)) (get_input r) (get_output r) @
                   [new_ProductRule (next_ident w) (get_input r) (get_output r)])) \<and>
        (owner = sender \<longrightarrow> product_rules (cells w' ! sender) = product_rules c2) \<and>
        (sender \<noteq> self \<and> owner \<noteq> self \<longrightarrow>
           product_rules (cells w' ! self) = product_rules (cells w ! self) \<and>
           product_netrules (cells w' ! self) = product_netrules (cells w ! self) \<and>
           count_rules (cells w' ! self) = count_rules (cells w ! self)) \<and>
        (sender \<noteq> self \<and> owner = self \<longrightarrow>
           rule \<in> set (all_rules (cells w ! self)) \<and>
           remove_ProductRule (cells w ! self) net1 (master_count w + 1) rule = Inr (c2, net2) \<and>
           product_rules (cells w' ! self) = product_rules c2 \<and>
           product_netrules (cells w' ! self) = product_netrules c2 \<and>
           count_rules (cells w' ! self) = count_rules (cells w ! self) - 1) \<and>
        total_rule_count w' = total_rule_count w"
proof -
  let ?new = "new_ProductRule (next_ident w) (get_input r) (get_output r)"
  let ?cs = "cells w"
  obtain c1 net1 owner rule c2 net2 w' where
    ad: "add_ProductRule (?cs ! sender) (productRule_Net w) (RuleObj ?new) = Inr (c1, net1)"
    and o: "owner < length ?cs"
    and ru: "rule \<in> set (all_rules (?cs[sender := c1] ! owner))"
    and dr: "(owner, rule) = network_rules (?cs[sender := c1]) !
          (generator w 0 mod length (network_rules (?cs[sender := c1])))"
    and rm: "remove_ProductRule (?cs[sender := c1] ! owner) net1 (master_count w + 1) rule =
       Inr (c2, net2)"
    and c1: "cell_wf c1"
    and rc: "receive_product w sender self p = Inr w'"
    and we: "w' = w\<lparr>cells := received_cells ?cs sender c1 owner c2 self p,
               master_count := master_count w + 1, last_added_rule := master_count w + 1,
               productRule_Net := net2, generator := advance (generator w),
               next_ident := Suc (next_ident w)\<rparr>"
    by (rule receive_source [OF wf s t hr pol a])
  have cw: "cells w' = received_cells ?cs sender c1 owner c2 self p" by (simp add: we)
  note rf = received_cells_facts [OF ad rm s o t, where p = p]
  have nm: "get_input ?new = get_input r" "get_output ?new = get_output r"
    by (simp_all add: new_ProductRule_def get_input_def get_output_def)
  from add_frame [OF ad]
  have lb: "lookup_bucket (product_rules c1) (get_input r) (get_output r) =
       Some (bucket_of (product_rules (?cs ! sender)) (get_input r) (get_output r) @ [?new])"
    by (simp add: nm)
  have len: "length (cells w') = length ?cs" using rf(1) by (simp add: cw)
  have act: "active_rule (cells w' ! sender) = None" using rf(2) by (simp add: cw)
  have pro: "products (cells w' ! self) = products (add_Product (?cs ! self) p)"
    using rf(3) by (simp add: cw)
  have allj: "\<forall>j < length ?cs.
           product_rules (cells w' ! j) =
             product_rules (?cs[sender := c1, owner := c2] ! j) \<and>
           product_netrules (cells w' ! j) =
             product_netrules (?cs[sender := c1, owner := c2] ! j) \<and>
           count_rules (cells w' ! j) =
             count_rules (?cs[sender := c1, owner := c2] ! j)"
    unfolding cw using received_cells_rules [OF s] by blast
  have snd1: "owner \<noteq> sender \<longrightarrow>
           product_rules (cells w' ! sender) = product_rules c1 \<and>
           lookup_bucket (product_rules (cells w' ! sender)) (get_input r) (get_output r) =
             Some (bucket_of (product_rules (?cs ! sender)) (get_input r) (get_output r) @
                   [?new])"
  proof
    assume h: "owner \<noteq> sender"
    from allj s have "product_rules (cells w' ! sender) =
        product_rules (?cs[sender := c1, owner := c2] ! sender)" by blast
    with h s have "product_rules (cells w' ! sender) = product_rules c1" by simp
    with lb show "product_rules (cells w' ! sender) = product_rules c1 \<and>
           lookup_bucket (product_rules (cells w' ! sender)) (get_input r) (get_output r) =
             Some (bucket_of (product_rules (?cs ! sender)) (get_input r) (get_output r) @
                   [?new])" by simp
  qed
  have snd2: "owner = sender \<longrightarrow> product_rules (cells w' ! sender) = product_rules c2"
  proof
    assume h: "owner = sender"
    from allj s have "product_rules (cells w' ! sender) =
        product_rules (?cs[sender := c1, owner := c2] ! sender)" by blast
    with h s show "product_rules (cells w' ! sender) = product_rules c2" by simp
  qed
  have same: "sender \<noteq> self \<and> owner \<noteq> self \<longrightarrow>
           product_rules (cells w' ! self) = product_rules (?cs ! self) \<and>
           product_netrules (cells w' ! self) = product_netrules (?cs ! self) \<and>
           count_rules (cells w' ! self) = count_rules (?cs ! self)"
    using rf(5) by (auto simp: cw)
  have hit: "sender \<noteq> self \<and> owner = self \<longrightarrow>
           rule \<in> set (all_rules (?cs ! self)) \<and>
           remove_ProductRule (?cs ! self) net1 (master_count w + 1) rule = Inr (c2, net2) \<and>
           product_rules (cells w' ! self) = product_rules c2 \<and>
           product_netrules (cells w' ! self) = product_netrules c2 \<and>
           count_rules (cells w' ! self) = count_rules (?cs ! self) - 1"
  proof (intro impI)
    assume h: "sender \<noteq> self \<and> owner = self"
    then have e: "?cs[sender := c1] ! owner = ?cs ! self" by simp
    from rf(6) h have
      "product_rules (cells w' ! self) = product_rules c2 \<and>
       product_netrules (cells w' ! self) = product_netrules c2 \<and>
       count_rules (cells w' ! self) = count_rules c2"
      by (simp add: cw)
    moreover from remove_frame [OF rm] have "count_rules c2 = count_rules (?cs ! self) - 1"
      by (simp add: e)
    ultimately show "rule \<in> set (all_rules (?cs ! self)) \<and>
           remove_ProductRule (?cs ! self) net1 (master_count w + 1) rule = Inr (c2, net2) \<and>
           product_rules (cells w' ! self) = product_rules c2 \<and>
           product_netrules (cells w' ! self) = product_netrules c2 \<and>
           count_rules (cells w' ! self) = count_rules (?cs ! self) - 1"
      using ru rm by (simp add: e)
  qed
  let ?w2 = "w\<lparr>cells := ?cs[sender := c1, owner := c2]\<rparr>"
  have wfo: "cell_wf (?cs[sender := c1] ! owner)" using wf c1 o by (rule cell_wf_nth_update)
  have t2: "total_rule_count ?w2 = total_rule_count w"
    using reproduce_totals [OF s o ad wfo rm, of ?w2 w] by simp
  have "total_rule_count w' = total_rule_count ?w2"
    using rf(4) len by (intro total_rule_count_cong) (simp_all add: cw)
  with t2 have tot: "total_rule_count w' = total_rule_count w" by simp
  show ?thesis
    apply (rule exI [of _ c1], rule exI [of _ net1], rule exI [of _ owner], rule exI [of _ rule])
    apply (rule exI [of _ c2], rule exI [of _ net2], rule exI [of _ w'])
    using ad lb o ru dr rm rc we len act pro allj snd1 snd2 same hit tot
    apply (intro conjI)
    apply assumption+
    done
qed

lemma receive_target_facts:
  assumes wf: "net_wf w" and t: "self < length (cells w)"
    and x: "x \<in> set (all_rules (cells w ! self))" and xt: "get_input x = get_type p"
    and pol: "repro_type (cells w ! self) = ''target''"
  shows "\<exists>inner r c1 net1 owner rule c2 net2 w'.
     map_of (product_rules (cells w ! self)) (get_type p) = Some inner \<and>
     r = rules_of_inner inner ! (generator w 0 mod length (rules_of_inner inner)) \<and>
     get_random_rule_of_type (cells w ! self) (generator w) (get_type p) =
       Inr (r, advance (generator w)) \<and>
     r \<in> set (all_rules (cells w ! self)) \<and> get_input r = get_type p \<and>
     add_ProductRule ((cells w ! self)\<lparr>active_rule := Some r\<rparr>) (productRule_Net w)
       (RuleObj (new_ProductRule (next_ident w) (get_input r) (get_output r))) =
       Inr (c1, net1) \<and>
     lookup_bucket (product_rules c1) (get_input r) (get_output r) =
       Some (bucket_of (product_rules (cells w ! self)) (get_input r) (get_output r) @
             [new_ProductRule (next_ident w) (get_input r) (get_output r)]) \<and>
     owner < length (cells w) \<and>
     rule \<in> set (all_rules ((cells w)[self := c1] ! owner)) \<and>
     (owner, rule) = network_rules ((cells w)[self := c1]) !
       (generator w 1 mod length (network_rules ((cells w)[self := c1]))) \<and>
     remove_ProductRule ((cells w)[self := c1] ! owner) net1 (master_count w + 1) rule =
       Inr (c2, net2) \<and>
     receive_product w sender self p = Inr w' \<and>
     w' = w\<lparr>cells := received_cells
                       ((cells w)[self := (cells w ! self)\<lparr>active_rule := Some r\<rparr>])
                       self c1 owner c2 self p,
            master_count := master_count w + 1, last_added_rule := master_count w + 1,
            productRule_Net := net2, generator := advance (advance (generator w)),
            next_ident := Suc (next_ident w)\<rparr> \<and>
     length (cells w') = length (cells w) \<and>
     active_rule (cells w' ! self) = None \<and>
     products (cells w' ! self) = products (add_Product (cells w ! self) p) \<and>
     (\<forall>j < length (cells w).
        product_rules (cells w' ! j) = product_rules ((cells w)[self := c1, owner := c2] ! j) \<and>
        product_netrules (cells w' ! j) =
          product_netrules ((cells w)[self := c1, owner := c2] ! j) \<and>
        count_rules (cells w' ! j) = count_rules ((cells w)[self := c1, owner := c2] ! j)) \<and>
     (owner \<noteq> self \<longrightarrow>
        product_rules (cells w' ! self) = product_rules c1 \<and>
        lookup_bucket (product_rules (cells w' ! self)) (get_input r) (get_output r) =
          Some (bucket_of (product_rules (cells w ! self)) (get_input r) (get_output r) @
                [new_ProductRule (next_ident w) (get_input r) (get_output r)])) \<and>
     (owner = self \<longrightarrow> product_rules (cells w' ! self) = product_rules c2) \<and>
     total_rule_count w' = total_rule_count w"
proof -
  let ?c = "cells w ! self"
  obtain inner r c1 net1 owner rule c2 net2 w' where
    m: "map_of (product_rules ?c) (get_type p) = Some inner"
    and ne: "rules_of_inner inner \<noteq> []"
    and r: "r = rules_of_inner inner ! (generator w 0 mod length (rules_of_inner inner))"
    and gr: "get_random_rule_of_type ?c (generator w) (get_type p) =
       Inr (r, advance (generator w))"
    and ad: "add_ProductRule (?c\<lparr>active_rule := Some r\<rparr>) (productRule_Net w)
       (RuleObj (new_ProductRule (next_ident w) (get_input r) (get_output r))) =
       Inr (c1, net1)"
    and o: "owner < length (cells w)"
    and ru: "rule \<in> set (all_rules ((cells w)[self := c1] ! owner))"
    and dr: "(owner, rule) = network_rules ((cells w)[self := c1]) !
       (generator w 1 mod length (network_rules ((cells w)[self := c1])))"
    and rm: "remove_ProductRule ((cells w)[self := c1] ! owner) net1 (master_count w + 1) rule =
       Inr (c2, net2)"
    and c1: "cell_wf c1"
    and rc: "receive_product w sender self p = Inr w'"
    and we: "w' = w\<lparr>cells := received_cells
                       ((cells w)[self := ?c\<lparr>active_rule := Some r\<rparr>])
                       self c1 owner c2 self p,
            master_count := master_count w + 1, last_added_rule := master_count w + 1,
            productRule_Net := net2, generator := advance (advance (generator w)),
            next_ident := Suc (next_ident w)\<rparr>"
    by (rule receive_target [OF wf t x xt pol])
  let ?new = "new_ProductRule (next_ident w) (get_input r) (get_output r)"
  let ?cs0 = "(cells w)[self := ?c\<lparr>active_rule := Some r\<rparr>]"
  have cw: "cells w' = received_cells ?cs0 self c1 owner c2 self p" by (simp add: we)
  from wf t have cwf: "cell_wf ?c" by (simp add: net_wf_def)
  from ne r have "r \<in> set (rules_of_inner inner)" by simp
  from rules_of_inner_typed [OF cwf m this]
  have ty: "get_input r = get_type p" and rin: "r \<in> set (all_rules ?c)" by simp_all
  have t0: "self < length ?cs0" and o0: "owner < length ?cs0" using t o by simp_all
  have ad0: "add_ProductRule (?cs0 ! self) (productRule_Net w) (RuleObj ?new) = Inr (c1, net1)"
    using ad t by simp
  have rm0: "remove_ProductRule (?cs0[self := c1] ! owner) net1 (master_count w + 1) rule =
       Inr (c2, net2)"
    using rm by simp
  note rf = received_cells_facts [OF ad0 rm0 t0 o0 t0, where p = p]
  have nm: "get_input ?new = get_input r" "get_output ?new = get_output r"
    by (simp_all add: new_ProductRule_def get_input_def get_output_def)
  from add_frame [OF ad]
  have lb: "lookup_bucket (product_rules c1) (get_input r) (get_output r) =
       Some (bucket_of (product_rules ?c) (get_input r) (get_output r) @ [?new])"
    by (simp add: nm)
  have len: "length (cells w') = length (cells w)" using rf(1) by (simp add: cw)
  have act: "active_rule (cells w' ! self) = None" using rf(2) by (simp add: cw)
  have "products (?cs0 ! self) = products ?c" using t by simp
  from products_add_Product_cong [OF this] rf(3)
  have pro: "products (cells w' ! self) = products (add_Product ?c p)" by (simp add: cw)
  have ov: "?cs0[self := c1, owner := c2] = (cells w)[self := c1, owner := c2]" by simp
  have allj: "\<forall>j < length (cells w).
        product_rules (cells w' ! j) = product_rules ((cells w)[self := c1, owner := c2] ! j) \<and>
        product_netrules (cells w' ! j) =
          product_netrules ((cells w)[self := c1, owner := c2] ! j) \<and>
        count_rules (cells w' ! j) = count_rules ((cells w)[self := c1, owner := c2] ! j)"
  proof (intro allI impI)
    fix j assume "j < length (cells w)"
    then have j0: "j < length ?cs0" by simp
    from received_cells_rules [OF t0 j0, of c1 owner c2 self p]
    show "product_rules (cells w' ! j) = product_rules ((cells w)[self := c1, owner := c2] ! j) \<and>
        product_netrules (cells w' ! j) =
          product_netrules ((cells w)[self := c1, owner := c2] ! j) \<and>
        count_rules (cells w' ! j) = count_rules ((cells w)[self := c1, owner := c2] ! j)"
      by (simp only: cw ov)
  qed
  have own1: "owner \<noteq> self \<longrightarrow>
        product_rules (cells w' ! self) = product_rules c1 \<and>
        lookup_bucket (product_rules (cells w' ! self)) (get_input r) (get_output r) =
          Some (bucket_of (product_rules ?c) (get_input r) (get_output r) @ [?new])"
  proof
    assume h: "owner \<noteq> self"
    from allj t have "product_rules (cells w' ! self) =
        product_rules ((cells w)[self := c1, owner := c2] ! self)" by blast
    with h t have "product_rules (cells w' ! self) = product_rules c1" by simp
    with lb show "product_rules (cells w' ! self) = product_rules c1 \<and>
        lookup_bucket (product_rules (cells w' ! self)) (get_input r) (get_output r) =
          Some (bucket_of (product_rules ?c) (get_input r) (get_output r) @ [?new])" by simp
  qed
  have own2: "owner = self \<longrightarrow> product_rules (cells w' ! self) = product_rules c2"
  proof
    assume h: "owner = self"
    from allj t have "product_rules (cells w' ! self) =
        product_rules ((cells w)[self := c1, owner := c2] ! self)" by blast
    with h t show "product_rules (cells w' ! self) = product_rules c2" by simp
  qed
  let ?w0 = "w\<lparr>cells := ?cs0\<rparr>"
  let ?w2 = "w\<lparr>cells := ?cs0[self := c1, owner := c2]\<rparr>"
  have wfo: "cell_wf (?cs0[self := c1] ! owner)"
    using cell_wf_nth_update [OF wf c1 o, of self] by simp
  have t2: "total_rule_count ?w2 = total_rule_count ?w0"
    using reproduce_totals [OF t0 o0 ad0 wfo rm0, of ?w2 ?w0] by simp
  have a0: "all_rules (cells ?w0 ! j) = all_rules (cells w ! j)" if "j < length (cells w)" for j
    using that by (cases "j = self") (simp_all add: all_rules_active_rule)
  have t0': "total_rule_count ?w0 = total_rule_count w"
    using a0 by (intro total_rule_count_cong) simp_all
  have "total_rule_count w' = total_rule_count ?w2"
    using rf(4) len by (intro total_rule_count_cong) (simp_all add: cw)
  with t2 t0' have tot: "total_rule_count w' = total_rule_count w" by simp
  show ?thesis
    apply (rule exI [of _ inner], rule exI [of _ r])
    apply (rule exI [of _ c1], rule exI [of _ net1], rule exI [of _ owner], rule exI [of _ rule])
    apply (rule exI [of _ c2], rule exI [of _ net2], rule exI [of _ w'])
    using m r gr rin ty ad lb o ru dr rm rc we len act pro allj own1 own2 tot
    apply (intro conjI)
    apply assumption+
    done
qed

lemma cell_wf_repro_type: "cell_wf (c\<lparr>repro_type := v\<rparr>) = cell_wf c"
  by (simp add: cell_wf_def aggregates_match_def stored_by_type_def cong: option.case_cong)

lemma net_wf_net_target: "net_wf net_target"
proof -
  have "cell_wf cell_S" "cell_wf cell_T"
    by (simp_all add: cell_wf_def aggregates_match_cell_S aggregates_match_cell_T
        stored_by_type_cell_S stored_by_type_cell_T)
  then show ?thesis
    by (simp add: net_wf_def net_target_def net_ST_def cell_wf_repro_type)
qed

subsection \<open>The claims\<close>

text \<open>
  C6. When the receiving cell has no rule that accepts the type of the product,
  \<^verbatim>\<open>receive_product\<close> raises nothing, hands the product as it is to the pool
  (\<^verbatim>\<open>urn.return_product\<close>), and leaves every cell of the network as it was, so the
  recipient's inventory, rule index, aggregate index, rule counter and active rule are
  unchanged; only the step counter advances.
\<close>

theorem receive_product_rejects:
  "\<not> has_rule (cells w ! self) (ByType (get_type p)) \<Longrightarrow>
   receive_product w sender self p =
     Inr (w\<lparr>master_count := master_count w + 1, urn := urn w @ [p]\<rparr>) \<and>
   (\<exists>w'. receive_product w sender self p = Inr w' \<and>
      urn w' = urn w @ [p] \<and> last (urn w') = p \<and>
      cells w' = cells w \<and>
      products (cells w' ! self) = products (cells w ! self) \<and>
      product_rules (cells w' ! self) = product_rules (cells w ! self) \<and>
      product_netrules (cells w' ! self) = product_netrules (cells w ! self) \<and>
      count_rules (cells w' ! self) = count_rules (cells w ! self) \<and>
      active_rule (cells w' ! self) = active_rule (cells w ! self) \<and>
      productRule_Net w' = productRule_Net w)"
  by (simp add: receive_product_def Let_def)

theorem receive_product_rejects_witness:
  "\<not> has_rule (cells net_ST ! 1) (ByType (get_type (token 9 5))) \<and>
   receive_product net_ST 0 1 (token 9 5) =
     Inr (net_ST\<lparr>master_count := master_count net_ST + 1, urn := urn net_ST @ [token 9 5]\<rparr>)"
proof -
  have h: "\<not> has_rule (cells net_ST ! 1) (ByType (get_type (token 9 5)))"
    by (simp add: has_rule_def net_ST_def cell_T_def new_Cell_def token_def get_type_def)
  from h receive_product_rejects [OF h] show ?thesis by simp
qed

text \<open>
  C9 (as amended). \<^verbatim>\<open>add_Product(p)\<close> followed by \<^verbatim>\<open>remove_Product\<close> of the type
  of \<open>p\<close> returns exactly \<open>p\<close> (the stack of a type is last-in first-out). When the
  type was a key of the inventory before the two calls, the inventory is afterwards what
  it was; when it was not, the inventory keeps the new key, with an empty stack.
  \<^verbatim>\<open>remove_Product\<close> has no raising branch, and returns none, leaving the cell as it
  is, both when the type is not a key and when its stack is empty.
\<close>

theorem add_then_remove_Product:
  "remove_Product (add_Product c p) (get_type p) =
     (c\<lparr>products := (if get_type p \<in> set (map fst (products c)) then products c
                     else products c @ [(get_type p, [])])\<rparr>, Some p) \<and>
   (t \<notin> set (map fst (products c)) \<or> map_of (products c) t = Some []
      \<longrightarrow> remove_Product c t = (c, None))"
proof (intro conjI impI)
  show "remove_Product (add_Product c p) (get_type p) =
     (c\<lparr>products := (if get_type p \<in> set (map fst (products c)) then products c
                     else products c @ [(get_type p, [])])\<rparr>, Some p)"
  proof (cases "map_of (products c) (get_type p)")
    case None
    then have k: "get_type p \<notin> set (map fst (products c))" by (simp add: map_of_eq_None_iff)
    have "remove_Product (add_Product c p) (get_type p) =
            (c\<lparr>products := AList.update (get_type p) [] (products c)\<rparr>, Some p)"
      using None by (simp add: remove_Product_def add_Product_def update_conv' update_keys)
    with k show ?thesis by (simp add: update_absent)
  next
    case (Some stack)
    then have k: "get_type p \<in> set (map fst (products c))"
      by (metis map_of_eq_None_iff option.distinct(1) set_map)
    have "remove_Product (add_Product c p) (get_type p) =
            (c\<lparr>products := AList.update (get_type p) stack (products c)\<rparr>, Some p)"
      using Some by (simp add: remove_Product_def add_Product_def update_conv' update_keys)
    with k Some show ?thesis by (simp add: update_triv)
  qed
next
  assume "t \<notin> set (map fst (products c)) \<or> map_of (products c) t = Some []"
  then show "remove_Product c t = (c, None)"
    by (auto simp: remove_Product_def)
qed

theorem add_then_remove_Product_witness:
  "remove_Product (add_Product cell_S (token 9 3)) 3 = (cell_S, Some (token 9 3)) \<and>
   remove_Product (add_Product cell_T (token 9 3)) 3 =
     (cell_T\<lparr>products := [(3, [])]\<rparr>, Some (token 9 3)) \<and>
   remove_Product cell_T 3 = (cell_T, None) \<and>
   remove_Product (cell_T\<lparr>products := [(3, [])]\<rparr>) 3 = (cell_T\<lparr>products := [(3, [])]\<rparr>, None)"
  using add_then_remove_Product [of cell_S "token 9 3" 3]
    add_then_remove_Product [of cell_T "token 9 3" 3]
    add_then_remove_Product [of "cell_T\<lparr>products := [(3, [])]\<rparr>" "token 9 3" 3]
  by (simp add: cell_S_def cell_T_def new_Cell_def token_def get_type_def)

text \<open>
  The claim as first stated fails where the type was not yet a key: on a cell with an
  empty inventory the two calls leave the key behind, with an empty stack.
\<close>

theorem add_then_remove_Product_counterexample:
  "products (fst (remove_Product (add_Product cell_T (token 9 3)) (get_type (token 9 3))))
     \<noteq> products cell_T"
  by (simp add: remove_Product_def add_Product_def cell_T_def new_Cell_def token_def get_type_def)

text \<open>
  C10. \<^verbatim>\<open>set_active_rule\<close>: for a rule contained in the bucket of its (input, output)
  pair the active rule becomes that rule and nothing is raised; when the bucket exists
  and does not contain the rule, the failure branch names the undefined
  \<^verbatim>\<open>InstanceError\<close> and so fails with a \<open>NameError\<close>; when the input key or the output
  key is absent from the index, the lookup fails with a \<open>KeyError\<close> before any check.
\<close>

theorem set_active_rule_outcomes:
  "(map_of (product_rules c) (get_input r) = Some inner \<and>
    map_of inner (get_output r) = Some bucket \<and> r \<in> set bucket
      \<longrightarrow> set_active_rule c r = Inr (c\<lparr>active_rule := Some r\<rparr>)) \<and>
   (map_of (product_rules c) (get_input r) = Some inner \<and>
    map_of inner (get_output r) = Some bucket \<and> r \<notin> set bucket
      \<longrightarrow> set_active_rule c r = Inl NameError) \<and>
   (map_of (product_rules c) (get_input r) = None
      \<longrightarrow> set_active_rule c r = Inl KeyError) \<and>
   (map_of (product_rules c) (get_input r) = Some inner \<and>
    map_of inner (get_output r) = None
      \<longrightarrow> set_active_rule c r = Inl KeyError)"
  by (simp add: set_active_rule_def)

theorem set_active_rule_outcomes_witness:
  "set_active_rule cell_S rule_A2 = Inr (cell_S\<lparr>active_rule := Some rule_A2\<rparr>) \<and>
   set_active_rule cell_S (rule_A2\<lparr>rule_ident := 8\<rparr>) = Inl NameError \<and>
   set_active_rule cell_S rule_C1 = Inl KeyError \<and>
   set_active_rule cell_S (rule_A2\<lparr>rule_output := 5\<rparr>) = Inl KeyError"
  using set_active_rule_outcomes [of cell_S rule_A2 "[(2, [rule_A1, rule_A2, rule_A3])]" "[rule_A1, rule_A2, rule_A3]"]
    set_active_rule_outcomes [of cell_S "rule_A2\<lparr>rule_ident := 8\<rparr>" "[(2, [rule_A1, rule_A2, rule_A3])]" "[rule_A1, rule_A2, rule_A3]"]
    set_active_rule_outcomes [of cell_S rule_C1]
    set_active_rule_outcomes [of cell_S "rule_A2\<lparr>rule_output := 5\<rparr>" "[(2, [rule_A1, rule_A2, rule_A3])]"]
  by (simp add: cell_S_def new_Cell_def rule_A1_def rule_A2_def rule_A3_def rule_C1_def
      get_input_def get_output_def)

text \<open>
  C3. \<^verbatim>\<open>remove_ProductRule\<close> on an instance \<open>r\<close> that is in the bucket of its
  (input, output) pair, on a cell that has the aggregate of that pair, raises nothing
  and decrements the rule counter. If \<open>r\<close> was the last instance of the bucket, the
  output key is deleted from the inner dictionary, the input key is deleted from the
  index when the inner dictionary is then empty (and kept, with the other output keys,
  otherwise), the aggregate is removed from the aggregate index, and the registry
  receives exactly one more call, \<^verbatim>\<open>remove_ProductNetRule\<close> with the aggregate and the
  step counter. If other instances remain, the bucket only loses \<open>r\<close>, the aggregate is
  only decremented, no key is deleted from either dictionary and the registry receives
  no call.
\<close>

theorem remove_ProductRule_cleanup:
  assumes "map_of (product_rules c) (get_input r) = Some inner"
    and "map_of inner (get_output r) = Some bucket"
    and "r \<in> set bucket"
    and "map_of (product_netrules c) (get_name r) = Some n"
  shows "\<exists>c' net'. remove_ProductRule c net master r = Inr (c', net') \<and>
     count_rules c' = count_rules c - 1 \<and>
     (remove1 r bucket = [] \<longrightarrow>
        product_rules c' =
          (if AList.delete (get_output r) inner = []
           then AList.delete (get_input r) (product_rules c)
           else AList.update (get_input r) (AList.delete (get_output r) inner) (product_rules c)) \<and>
        map_of (AList.delete (get_output r) inner) (get_output r) = None \<and>
        lookup_bucket (product_rules c') (get_input r) (get_output r) = None \<and>
        map_of (product_rules c') (get_input r) =
          (if AList.delete (get_output r) inner = [] then None
           else Some (AList.delete (get_output r) inner)) \<and>
        product_netrules c' = AList.delete (get_name r) (product_netrules c) \<and>
        map_of (product_netrules c') (get_name r) = None \<and>
        net' = net @ [Remove_ProductNetRule (Some (subtract_from_count n)) master]) \<and>
     (remove1 r bucket \<noteq> [] \<longrightarrow>
        product_rules c' =
          AList.update (get_input r) (AList.update (get_output r) (remove1 r bucket) inner)
            (product_rules c) \<and>
        map fst (product_rules c') = map fst (product_rules c) \<and>
        lookup_bucket (product_rules c') (get_input r) (get_output r) = Some (remove1 r bucket) \<and>
        product_netrules c' =
          AList.update (get_name r) (subtract_from_count n) (product_netrules c) \<and>
        map fst (product_netrules c') = map fst (product_netrules c) \<and>
        net' = net)"
proof (cases "remove1 r bucket = []")
  case True
  have k: "get_input r \<in> fst ` set (product_rules c)"
    using assms(1) by (metis map_of_eq_None_iff option.distinct(1))
  show ?thesis using assms True
    by (simp add: remove_ProductRule_def Let_def update_conv' delete_update_same
        delete_conv' lookup_bucket_def)
next
  case False
  have k: "get_input r \<in> fst ` set (product_rules c)"
    using assms(1) by (metis map_of_eq_None_iff option.distinct(1))
  have k2: "get_name r \<in> fst ` set (product_netrules c)"
    using assms(4) by (metis map_of_eq_None_iff option.distinct(1))
  show ?thesis using assms False k k2
    by (simp add: remove_ProductRule_def Let_def update_conv' update_keys lookup_bucket_def)
qed

theorem remove_ProductRule_cleanup_witness:
  "remove_ProductRule cell_S [] 10 rule_B1 =
     Inr (cell_S\<lparr>product_rules := [(1, [(2, [rule_A1, rule_A2, rule_A3])])],
                product_netrules := [((1, 2), aggregate 1 2 0 3)],
                count_rules := 3\<rparr>,
          [Remove_ProductNetRule (Some (aggregate 3 4 0 0)) 10]) \<and>
   remove_ProductRule cell_S [] 10 rule_A2 =
     Inr (cell_S\<lparr>product_rules := [(1, [(2, [rule_A1, rule_A3])]), (3, [(4, [rule_B1])])],
                product_netrules := [((1, 2), aggregate 1 2 0 2), ((3, 4), aggregate 3 4 0 1)],
                count_rules := 3\<rparr>,
          [])"
  using remove_ProductRule_cleanup [of cell_S rule_B1 "[(4, [rule_B1])]" "[rule_B1]"
      "aggregate 3 4 0 1" "[]" 10]
    remove_ProductRule_cleanup [of cell_S rule_A2 "[(2, [rule_A1, rule_A2, rule_A3])]"
      "[rule_A1, rule_A2, rule_A3]" "aggregate 1 2 0 3" "[]" 10]
  by (simp add: remove_ProductRule_def Let_def cell_S_def new_Cell_def rule_A1_def rule_A2_def
      rule_A3_def rule_B1_def aggregate_def get_input_def get_output_def get_name_def
      subtract_from_count_def)

text \<open>
  C8 (as amended). \<^verbatim>\<open>get_random_neighbor\<close> with an exclusion argument \<open>w\<close> that is
  among the neighbors samples from the neighbors with (the first occurrence of) \<open>w\<close>
  removed, every index of that list being the one drawn for some draw of the generator;
  for neighbors without repetition, \<open>w\<close> is then never selected and each other neighbor is
  selected with probability one over the number of the others. If \<open>w\<close> is the only
  neighbor, the sample is over an empty list and raises \<open>ValueError\<close>. With an exclusion
  argument that is not among the neighbors the call raises \<open>TypeError\<close>. With no exclusion
  argument it samples from all neighbors.
\<close>

theorem get_random_neighbor_exclusion:
  "(w \<in> set (neighbors c) \<and> remove1 w (neighbors c) \<noteq> [] \<longrightarrow>
      get_random_neighbor c g (Some w) =
        Inr (remove1 w (neighbors c) ! (g 0 mod length (remove1 w (neighbors c))), advance g)) \<and>
   (w \<in> set (neighbors c) \<and> distinct (neighbors c) \<and> v \<in> set (neighbors c) \<and> v \<noteq> w \<longrightarrow>
      set (remove1 w (neighbors c)) = set (neighbors c) - {w} \<and>
      uniform_prob (remove1 w (neighbors c)) (\<lambda>x. x = v) = 1 / real (length (neighbors c) - 1) \<and>
      uniform_prob (remove1 w (neighbors c)) (\<lambda>x. x = w) = 0) \<and>
   (w \<in> set (neighbors c) \<and> remove1 w (neighbors c) = [] \<longrightarrow>
      get_random_neighbor c g (Some w) = Inl ValueError) \<and>
   (w \<notin> set (neighbors c) \<longrightarrow> get_random_neighbor c g (Some w) = Inl TypeError) \<and>
   (neighbors c \<noteq> [] \<longrightarrow>
      get_random_neighbor c g None = Inr (neighbors c ! (g 0 mod length (neighbors c)), advance g))"
proof (intro conjI impI)
  assume a: "w \<in> set (neighbors c) \<and> distinct (neighbors c) \<and> v \<in> set (neighbors c) \<and> v \<noteq> w"
  then have d: "distinct (remove1 w (neighbors c))" by simp
  from a have s: "set (remove1 w (neighbors c)) = set (neighbors c) - {w}" by simp
  from a have l: "length (remove1 w (neighbors c)) = length (neighbors c) - 1"
    by (simp add: length_remove1)
  show "set (remove1 w (neighbors c)) = set (neighbors c) - {w}" by (rule s)
  show "uniform_prob (remove1 w (neighbors c)) (\<lambda>x. x = v) = 1 / real (length (neighbors c) - 1)"
    using a s l by (simp add: uniform_prob_def filter_eq_distinct [OF d])
  show "uniform_prob (remove1 w (neighbors c)) (\<lambda>x. x = w) = 0"
    using s by (simp add: uniform_prob_def filter_eq_distinct [OF d])
qed (simp_all add: get_random_neighbor_def sample1_def Let_def)

theorem get_random_neighbor_exclusion_witness:
  "get_random_neighbor cell_S (\<lambda>n. 0) (Some 1) = Inr (2, advance (\<lambda>n. 0)) \<and>
   uniform_prob (remove1 1 (neighbors cell_S)) (\<lambda>x. x = 2) = 1 \<and>
   get_random_neighbor cell_T (\<lambda>n. 0) (Some 0) = Inl ValueError \<and>
   get_random_neighbor cell_S (\<lambda>n. 0) (Some 3) = Inl TypeError \<and>
   get_random_neighbor cell_S (\<lambda>n. 1) None = Inr (2, advance (\<lambda>n. 1))"
  using get_random_neighbor_exclusion [of 1 cell_S "\<lambda>n. 0" 2]
    get_random_neighbor_exclusion [of 0 cell_T "\<lambda>n. 0" 0]
    get_random_neighbor_exclusion [of 3 cell_S "\<lambda>n. 0" 0]
    get_random_neighbor_exclusion [of 3 cell_S "\<lambda>n. 1" 0]
  by (simp add: cell_S_def cell_T_def new_Cell_def)

text \<open>
  The claim as first stated fails for an exclusion argument that is not a neighbor: the
  call raises \<open>TypeError\<close> instead of sampling from all neighbors, as it does with no
  exclusion argument. It also fails on a cell whose only neighbor is the excluded one:
  nothing is left to sample from.
\<close>

theorem get_random_neighbor_exclusion_counterexample:
  "neighbors cell_S \<noteq> [] \<and> 3 \<notin> set (neighbors cell_S) \<and>
   get_random_neighbor cell_S (\<lambda>n. 0) (Some 3) = Inl TypeError \<and>
   get_random_neighbor cell_S (\<lambda>n. 0) None = Inr (1, advance (\<lambda>n. 0)) \<and>
   neighbors cell_T \<noteq> [] \<and> 0 \<in> set (neighbors cell_T) \<and>
   get_random_neighbor cell_T (\<lambda>n. 0) (Some 0) = Inl ValueError"
  by (simp add: get_random_neighbor_def sample1_def Let_def cell_S_def cell_T_def new_Cell_def)

text \<open>
  C2. On every cell that arises from a cell without rules by calls of
  \<^verbatim>\<open>add_ProductRule\<close> and \<^verbatim>\<open>remove_ProductRule\<close>, the rule counter equals the sum
  of the lengths of the buckets of the rule index and equals the sum of the counts of
  the aggregate index, and every further call of either method that raises nothing
  yields a cell on which both equalities hold again. More generally, on any cell whose
  aggregates match its buckets pair by pair, both methods preserve the two equalities
  together with that match.
\<close>

theorem counts_agree_preserved:
  "(reachable c \<longrightarrow>
      counts_agree c \<and>
      (\<forall>net a c' net'. add_ProductRule c net a = Inr (c', net') \<longrightarrow> counts_agree c') \<and>
      (\<forall>net master r c' net'.
         remove_ProductRule c net master r = Inr (c', net') \<longrightarrow> counts_agree c')) \<and>
   (aggregates_match c \<and> counts_agree c \<longrightarrow>
      (\<forall>net a c' net'. add_ProductRule c net a = Inr (c', net') \<longrightarrow>
         aggregates_match c' \<and> counts_agree c') \<and>
      (\<forall>net master r c' net'.
         remove_ProductRule c net master r = Inr (c', net') \<longrightarrow>
         aggregates_match c' \<and> counts_agree c'))"
  using reachable_invariant add_preserves_counts add_preserves_match
    remove_preserves_match_counts by blast

theorem counts_agree_preserved_witness:
  "reachable (new_Cell 0 False ''source'' ''spatial'') \<and>
   add_ProductRule (new_Cell 0 False ''source'' ''spatial'') [] (RuleObj rule_A1) =
     Inr ((new_Cell 0 False ''source'' ''spatial'')
            \<lparr>product_rules := [(1, [(2, [rule_A1])])],
             product_netrules := [((1, 2), aggregate 1 2 0 1)],
             count_rules := 1\<rparr>,
          [Add_ProductNetRule (aggregate 1 2 0 1)]) \<and>
   counts_agree ((new_Cell 0 False ''source'' ''spatial'')
            \<lparr>product_rules := [(1, [(2, [rule_A1])])],
             product_netrules := [((1, 2), aggregate 1 2 0 1)],
             count_rules := 1\<rparr>) \<and>
   aggregates_match cell_S \<and> counts_agree cell_S \<and>
   remove_ProductRule cell_S [] 10 rule_B1 =
     Inr (cell_S\<lparr>product_rules := [(1, [(2, [rule_A1, rule_A2, rule_A3])])],
                product_netrules := [((1, 2), aggregate 1 2 0 3)],
                count_rules := 3\<rparr>,
          [Remove_ProductNetRule (Some (aggregate 3 4 0 0)) 10]) \<and>
   counts_agree (cell_S\<lparr>product_rules := [(1, [(2, [rule_A1, rule_A2, rule_A3])])],
                product_netrules := [((1, 2), aggregate 1 2 0 3)],
                count_rules := 3\<rparr>)"
proof -
  let ?c0 = "new_Cell 0 False ''source'' ''spatial''"
  let ?c1 = "?c0\<lparr>product_rules := [(1, [(2, [rule_A1])])],
             product_netrules := [((1, 2), aggregate 1 2 0 1)],
             count_rules := 1\<rparr>"
  let ?c2 = "cell_S\<lparr>product_rules := [(1, [(2, [rule_A1, rule_A2, rule_A3])])],
                product_netrules := [((1, 2), aggregate 1 2 0 3)],
                count_rules := 3\<rparr>"
  have r0: "reachable ?c0"
    by (rule reachable.fresh) (simp_all add: new_Cell_def)
  have a: "add_ProductRule ?c0 [] (RuleObj rule_A1) =
      Inr (?c1, [Add_ProductNetRule (aggregate 1 2 0 1)])"
    by (simp add: add_ProductRule_def add_ProductNetRule_def Let_def new_Cell_def rule_A1_def
        get_input_def get_output_def get_name_def aggregate_def set_owner_def
        new_ProductNetRule_def)
  have c1: "counts_agree ?c1"
    using counts_agree_preserved [of ?c0] r0 a by blast
  have m: "aggregates_match cell_S" by (rule aggregates_match_cell_S)
  have ca: "counts_agree cell_S" by (rule counts_agree_cell_S)
  have rm: "remove_ProductRule cell_S [] 10 rule_B1 =
     Inr (?c2, [Remove_ProductNetRule (Some (aggregate 3 4 0 0)) 10])"
    by (simp add: remove_ProductRule_def Let_def cell_S_def new_Cell_def rule_A1_def rule_A2_def
      rule_A3_def rule_B1_def aggregate_def get_input_def get_output_def get_name_def
      subtract_from_count_def)
  have c2: "counts_agree ?c2"
    using counts_agree_preserved [of cell_S] m ca rm by blast
  from r0 a c1 m ca rm c2 show ?thesis by blast
qed

text \<open>
  C4. \<^verbatim>\<open>get_random_rule\<close> samples from the list of all rule instances of the cell:
  the list has one entry per instance (its length is the sum of the bucket lengths), and
  the call returns the entry at the index the generator draws. On an index with one
  entry per key whose rules are stored under their own types, the candidates of an
  (input, output) type are exactly the instances of its bucket, in the order of the
  bucket: every individual instance is a candidate as often as it occurs in its own
  bucket, every candidate is an instance of the index, and every instance of a bucket
  is the one returned for some draw. So a type that holds \<open>k\<close> of the \<open>n\<close> instances is
  selected with probability \<open>k / n\<close> when every index is equally likely, not with the
  same probability as every other type, and an individual instance with probability
  (its occurrences) \<open>/ n\<close>. On a cell without rule instances the call raises
  \<open>ValueError\<close>.
\<close>

theorem get_random_rule_weighted:
  assumes "distinct (map fst (product_rules c))"
    and "\<forall>i inner. map_of (product_rules c) i = Some inner \<longrightarrow> distinct (map fst inner)"
    and "stored_by_type c"
  shows "length (all_rules c) = index_size (product_rules c) \<and>
     length (filter (\<lambda>r. get_input r = i \<and> get_output r = out) (all_rules c)) =
       length (bucket_of (product_rules c) i out) \<and>
     (all_rules c \<noteq> [] \<longrightarrow>
        get_random_rule c g = Inr (all_rules c ! (g 0 mod length (all_rules c)), advance g) \<and>
        uniform_prob (all_rules c) (\<lambda>r. get_input r = i \<and> get_output r = out) =
          real (length (bucket_of (product_rules c) i out)) /
          real (index_size (product_rules c))) \<and>
     (all_rules c = [] \<longrightarrow> get_random_rule c g = Inl ValueError) \<and>
     (product_rules c = [] \<longrightarrow> get_random_rule c g = Inl ValueError) \<and>
     filter (\<lambda>r. get_input r = i \<and> get_output r = out) (all_rules c) =
       bucket_of (product_rules c) i out \<and>
     (\<forall>r. filter (\<lambda>x. x = r) (all_rules c) =
          filter (\<lambda>x. x = r) (bucket_of (product_rules c) (get_input r) (get_output r))) \<and>
     (\<forall>r. r \<in> set (all_rules c) \<longleftrightarrow>
          r \<in> set (bucket_of (product_rules c) (get_input r) (get_output r))) \<and>
     (\<forall>r. r \<in> set (bucket_of (product_rules c) i out) \<longrightarrow>
          (\<exists>j < length (all_rules c). all_rules c ! j = r \<and>
             (g 0 = j \<longrightarrow> get_random_rule c g = Inr (r, advance g)))) \<and>
     (\<forall>r. all_rules c \<noteq> [] \<longrightarrow>
          uniform_prob (all_rules c) (\<lambda>x. x = r) =
            real (length (filter (\<lambda>x. x = r)
                    (bucket_of (product_rules c) (get_input r) (get_output r)))) /
            real (index_size (product_rules c)))"
proof -
  have d2: "\<And>i inner. map_of (product_rules c) i = Some inner \<Longrightarrow> distinct (map fst inner)"
    using assms(2) by blast
  have ft: "filter (\<lambda>r. get_input r = i \<and> get_output r = out) (all_rules c) =
      bucket_of (product_rules c) i out" for i out
    using assms(1) d2 assms(3) by (rule filter_type_all_rules)
  have fi: "filter (\<lambda>x. x = r) (all_rules c) =
      filter (\<lambda>x. x = r) (bucket_of (product_rules c) (get_input r) (get_output r))" for r
    using assms(1) d2 assms(3) by (rule filter_instance_all_rules)
  have n: "length (all_rules c) = index_size (product_rules c)" by (rule length_all_rules)
  have k: "length (filter (\<lambda>r. get_input r = i \<and> get_output r = out) (all_rules c)) =
       length (bucket_of (product_rules c) i out)"
    by (simp only: ft)
  have e: "product_rules c = [] \<Longrightarrow> all_rules c = []" by (simp add: all_rules_def)
  have old: "length (all_rules c) = index_size (product_rules c) \<and>
     length (filter (\<lambda>r. get_input r = i \<and> get_output r = out) (all_rules c)) =
       length (bucket_of (product_rules c) i out) \<and>
     (all_rules c \<noteq> [] \<longrightarrow>
        get_random_rule c g = Inr (all_rules c ! (g 0 mod length (all_rules c)), advance g) \<and>
        uniform_prob (all_rules c) (\<lambda>r. get_input r = i \<and> get_output r = out) =
          real (length (bucket_of (product_rules c) i out)) /
          real (index_size (product_rules c))) \<and>
     (all_rules c = [] \<longrightarrow> get_random_rule c g = Inl ValueError) \<and>
     (product_rules c = [] \<longrightarrow> get_random_rule c g = Inl ValueError)"
    using n k e by (simp add: get_random_rule_def sample1_def uniform_prob_def)
  have mem: "r \<in> set (all_rules c) \<longleftrightarrow>
      r \<in> set (bucket_of (product_rules c) (get_input r) (get_output r))" for r
  proof -
    have "r \<in> set (all_rules c) \<longleftrightarrow> filter (\<lambda>x. x = r) (all_rules c) \<noteq> []"
      by (auto simp: filter_empty_conv)
    also have "\<dots> \<longleftrightarrow> filter (\<lambda>x. x = r)
        (bucket_of (product_rules c) (get_input r) (get_output r)) \<noteq> []"
      by (simp only: fi)
    also have "\<dots> \<longleftrightarrow> r \<in> set (bucket_of (product_rules c) (get_input r) (get_output r))"
      by (auto simp: filter_empty_conv)
    finally show ?thesis .
  qed
  have drawn: "\<exists>j < length (all_rules c). all_rules c ! j = r \<and>
             (g 0 = j \<longrightarrow> get_random_rule c g = Inr (r, advance g))"
    if "r \<in> set (bucket_of (product_rules c) i out)" for r
  proof -
    from that have "r \<in> set (filter (\<lambda>r. get_input r = i \<and> get_output r = out) (all_rules c))"
      by (simp only: ft)
    then have "r \<in> set (all_rules c)" by simp
    then obtain j where j: "j < length (all_rules c)" "all_rules c ! j = r"
      by (auto simp: in_set_conv_nth)
    then have "g 0 = j \<longrightarrow> get_random_rule c g = Inr (r, advance g)"
      by (auto simp: get_random_rule_def sample1_def)
    with j show ?thesis by blast
  qed
  have pr: "uniform_prob (all_rules c) (\<lambda>x. x = r) =
            real (length (filter (\<lambda>x. x = r)
                    (bucket_of (product_rules c) (get_input r) (get_output r)))) /
            real (index_size (product_rules c))" for r
    by (simp only: uniform_prob_def fi n)
  from old ft fi mem drawn pr show ?thesis by blast
qed

theorem get_random_rule_weighted_witness:
  "length (all_rules cell_S) = 4 \<and>
   length (bucket_of (product_rules cell_S) 1 2) = 3 \<and>
   uniform_prob (all_rules cell_S) (\<lambda>r. get_input r = 1 \<and> get_output r = 2) = 0.75 \<and>
   get_random_rule cell_S (\<lambda>n. 2) = Inr (rule_A3, advance (\<lambda>n. 2)) \<and>
   get_random_rule cell_S (\<lambda>n. 3) = Inr (rule_B1, advance (\<lambda>n. 3)) \<and>
   get_random_rule (new_Cell 0 False ''source'' ''spatial'') (\<lambda>n. 0) = Inl ValueError \<and>
   filter (\<lambda>r. get_input r = 1 \<and> get_output r = 2) (all_rules cell_S) =
     [rule_A1, rule_A2, rule_A3] \<and>
   get_random_rule cell_S (\<lambda>n. 0) = Inr (rule_A1, advance (\<lambda>n. 0)) \<and>
   get_random_rule cell_S (\<lambda>n. 1) = Inr (rule_A2, advance (\<lambda>n. 1)) \<and>
   uniform_prob (all_rules cell_S) (\<lambda>x. x = rule_A1) = 1 / 4"
proof -
  have d1: "distinct (map fst (product_rules cell_S))"
    and d2: "\<forall>i inner. map_of (product_rules cell_S) i = Some inner \<longrightarrow> distinct (map fst inner)"
    using aggregates_match_cell_S by (simp_all add: aggregates_match_def)
  have e1: "distinct (map fst (product_rules (new_Cell 0 False ''source'' ''spatial'')))"
    and e2: "\<forall>i inner.
        map_of (product_rules (new_Cell 0 False ''source'' ''spatial'')) i = Some inner
        \<longrightarrow> distinct (map fst inner)"
    and e3: "stored_by_type (new_Cell 0 False ''source'' ''spatial'')"
    by (simp_all add: new_Cell_def stored_by_type_def lookup_bucket_def)
  have a: "all_rules cell_S = [rule_A1, rule_A2, rule_A3, rule_B1]"
    by (simp add: all_rules_def rules_of_inner_def cell_S_def)
  have b: "bucket_of (product_rules cell_S) 1 2 = [rule_A1, rule_A2, rule_A3]"
    by (simp add: bucket_of_def lookup_bucket_def cell_S_def)
  have b1: "bucket_of (product_rules cell_S) (get_input rule_A1) (get_output rule_A1) =
      [rule_A1, rule_A2, rule_A3]"
    by (simp add: bucket_of_def lookup_bucket_def cell_S_def rule_A1_def get_input_def
        get_output_def)
  have ne: "rule_A2 \<noteq> rule_A1" "rule_A3 \<noteq> rule_A1"
    by (simp_all add: rule_A1_def rule_A2_def rule_A3_def)
  have i: "index_size (product_rules cell_S) = 4"
    by (simp add: index_size_def bucket_sizes_def cell_S_def)
  have n: "product_rules (new_Cell 0 False ''source'' ''spatial'') = []"
    by (simp add: new_Cell_def)
  note t = get_random_rule_weighted [OF d1 d2 stored_by_type_cell_S]
  from t [of 1 2 "\<lambda>n. 0"] have f: "filter (\<lambda>r. get_input r = 1 \<and> get_output r = 2)
      (all_rules cell_S) = [rule_A1, rule_A2, rule_A3]"
    by (simp only: b)
  from t [of 1 2 "\<lambda>n. 0"] have "\<forall>r. all_rules cell_S \<noteq> [] \<longrightarrow>
          uniform_prob (all_rules cell_S) (\<lambda>x. x = r) =
            real (length (filter (\<lambda>x. x = r)
                    (bucket_of (product_rules cell_S) (get_input r) (get_output r)))) /
            real (index_size (product_rules cell_S))"
    by blast
  then have p: "uniform_prob (all_rules cell_S) (\<lambda>x. x = rule_A1) = 1 / 4"
    using ne by (simp add: a b1 i)
  have rest: "length (all_rules cell_S) = 4 \<and>
   length (bucket_of (product_rules cell_S) 1 2) = 3 \<and>
   uniform_prob (all_rules cell_S) (\<lambda>r. get_input r = 1 \<and> get_output r = 2) = 0.75 \<and>
   get_random_rule cell_S (\<lambda>n. 2) = Inr (rule_A3, advance (\<lambda>n. 2)) \<and>
   get_random_rule cell_S (\<lambda>n. 3) = Inr (rule_B1, advance (\<lambda>n. 3)) \<and>
   get_random_rule (new_Cell 0 False ''source'' ''spatial'') (\<lambda>n. 0) = Inl ValueError \<and>
   get_random_rule cell_S (\<lambda>n. 0) = Inr (rule_A1, advance (\<lambda>n. 0)) \<and>
   get_random_rule cell_S (\<lambda>n. 1) = Inr (rule_A2, advance (\<lambda>n. 1))"
    using t [of 1 2 "\<lambda>n. 2", THEN conjunct2, THEN conjunct2, THEN conjunct1]
      t [of 1 2 "\<lambda>n. 3", THEN conjunct2, THEN conjunct2, THEN conjunct1]
      t [of 1 2 "\<lambda>n. 0", THEN conjunct2, THEN conjunct2, THEN conjunct1]
      t [of 1 2 "\<lambda>n. 1", THEN conjunct2, THEN conjunct2, THEN conjunct1]
      get_random_rule_weighted [OF e1 e2 e3, of 1 2 "\<lambda>n. 0", THEN conjunct2, THEN conjunct2,
        THEN conjunct2, THEN conjunct2, THEN conjunct1]
    by (simp add: a b i n)
  from rest f p show ?thesis by simp
qed

text \<open>
  C7 (as amended). On a cell whose inventory holds every product under its current type,
  \<^verbatim>\<open>has_Product\<close> raises nothing, keeps every key of the inventory, empties the
  stack of every stored type for which the cell has no rule and leaves the other stacks
  as they are. It returns none when no stored product has a type with a rule (so when no
  stored type has a rule). Otherwise it returns the type of one stored product, drawn by
  the generator among all the stored products whose type has a rule: the type returned
  is one the cell holds a product of and has a rule for, and a type is returned for as
  many of the equally likely draws as the cell stores products of it, so with
  probability proportional to the number of its stored products, not with the same
  probability as every other eligible type.
\<close>

theorem has_Product_selects_token:
  assumes "inventory_by_type c"
  shows "\<exists>res g'. has_Product c g = Inr (c\<lparr>products := pruned_products c\<rparr>, res, g') \<and>
     map fst (pruned_products c) = map fst (products c) \<and>
     (\<forall>t stack. map_of (products c) t = Some stack \<longrightarrow>
        map_of (pruned_products c) t = Some (if has_rule c (ByType t) then stack else [])) \<and>
     (usable_products c = [] \<longrightarrow> res = None) \<and>
     ((\<forall>t \<in> set (map fst (products c)). \<not> has_rule c (ByType t)) \<longrightarrow> res = None) \<and>
     (usable_products c \<noteq> [] \<longrightarrow>
        res = Some (get_type (usable_products c ! (g 0 mod length (usable_products c))))) \<and>
     (\<forall>t. res = Some t \<longrightarrow>
        has_rule c (ByType t) \<and>
        (\<exists>stack. map_of (products c) t = Some stack \<and> stack \<noteq> [])) \<and>
     (\<forall>t stack. has_rule c (ByType t) \<and> map_of (products c) t = Some stack \<longrightarrow>
        length (filter (\<lambda>p. get_type p = t) (usable_products c)) = length stack \<and>
        uniform_prob (usable_products c) (\<lambda>p. get_type p = t) =
          real (length stack) / real (length (usable_products c)))"
proof -
  let ?u = "usable_products c"
  let ?res = "if ?u = [] then None else Some (get_type (?u ! (g 0 mod length ?u)))"
  from assms have d: "distinct (map fst (products c))"
    and ty: "\<And>k stack p. map_of (products c) k = Some stack \<Longrightarrow> p \<in> set stack \<Longrightarrow>
        get_type p = k"
    by (auto simp: inventory_by_type_def)
  have r: "has_Product c g =
      Inr (c\<lparr>products := pruned_products c\<rparr>, ?res, if ?u = [] then g else advance g)"
    using d by (rule has_Product_result)
  have side: "map_of (pruned_products c) t = Some (if has_rule c (ByType t) then stack else [])"
    if "map_of (products c) t = Some stack" for t stack
    using that by (simp add: pruned_products_def map_of_pruned has_rule_ByType)
  have none: "?u = []" if "\<forall>t \<in> set (map fst (products c)). \<not> has_rule c (ByType t)"
  proof -
    have "fst e \<notin> set (map fst (product_rules c))" if "e \<in> set (products c)" for e
    proof -
      from that have "fst e \<in> set (map fst (products c))" by simp
      with \<open>\<forall>t \<in> set (map fst (products c)). \<not> has_rule c (ByType t)\<close>
      have "\<not> has_rule c (ByType (fst e))" by blast
      then show ?thesis by (simp add: has_rule_ByType)
    qed
    then have "filter (\<lambda>e. fst e \<in> set (map fst (product_rules c))) (products c) = []"
      by (simp add: filter_empty_conv)
    then show ?thesis by (simp add: usable_products_def)
  qed
  have some:
    "has_rule c (ByType t) \<and> (\<exists>stack. map_of (products c) t = Some stack \<and> stack \<noteq> [])"
    if "?res = Some t" for t
  proof -
    from that have ne: "?u \<noteq> []" and t: "t = get_type (?u ! (g 0 mod length ?u))"
      by (auto split: if_splits)
    from ne have "?u ! (g 0 mod length ?u) \<in> set ?u" by simp
    from usable_in_stack [OF this] obtain k stack where
      k: "(k, stack) \<in> set (products c)" "k \<in> set (map fst (product_rules c))"
        "?u ! (g 0 mod length ?u) \<in> set stack"
      by blast
    from k(1) d have m: "map_of (products c) k = Some stack" by simp
    from ty [OF m k(3)] t have "t = k" by simp
    with k m show ?thesis by (auto simp: has_rule_ByType)
  qed
  have cnt: "length (filter (\<lambda>p. get_type p = t) ?u) = length stack \<and>
        uniform_prob ?u (\<lambda>p. get_type p = t) = real (length stack) / real (length ?u)"
    if "has_rule c (ByType t) \<and> map_of (products c) t = Some stack" for t stack
  proof -
    from that have "t \<in> set (map fst (product_rules c))" by (simp add: has_rule_ByType)
    from count_type_usable [OF assms this] that show ?thesis
      by (simp add: uniform_prob_def)
  qed
  show ?thesis
  proof (intro exI [of _ ?res] exI [of _ "if ?u = [] then g else advance g"] conjI)
    show "has_Product c g =
        Inr (c\<lparr>products := pruned_products c\<rparr>, ?res, if ?u = [] then g else advance g)"
      by (rule r)
    show "map fst (pruned_products c) = map fst (products c)" by (rule keys_pruned)
    show "\<forall>t stack. map_of (products c) t = Some stack \<longrightarrow>
        map_of (pruned_products c) t = Some (if has_rule c (ByType t) then stack else [])"
      using side by blast
    show "?u = [] \<longrightarrow> ?res = None" by simp
    show "(\<forall>t \<in> set (map fst (products c)). \<not> has_rule c (ByType t)) \<longrightarrow> ?res = None"
      using none by simp
    show "?u \<noteq> [] \<longrightarrow> ?res = Some (get_type (?u ! (g 0 mod length ?u)))" by simp
    show "\<forall>t. ?res = Some t \<longrightarrow>
        has_rule c (ByType t) \<and> (\<exists>stack. map_of (products c) t = Some stack \<and> stack \<noteq> [])"
      using some by blast
    show "\<forall>t stack. has_rule c (ByType t) \<and> map_of (products c) t = Some stack \<longrightarrow>
        length (filter (\<lambda>p. get_type p = t) ?u) = length stack \<and>
        uniform_prob ?u (\<lambda>p. get_type p = t) = real (length stack) / real (length ?u)"
      using cnt by blast
  qed
qed

theorem has_Product_selects_token_witness:
  "inventory_by_type cell_S \<and>
   (\<exists>g'. has_Product cell_S (\<lambda>n. 3) =
     Inr (cell_S\<lparr>products :=
            [(1, [token 0 1, token 1 1, token 2 1]), (3, [token 3 3]), (7, [])]\<rparr>,
          Some 3, g')) \<and>
   uniform_prob (usable_products cell_S) (\<lambda>p. get_type p = 3) = 1 / 4 \<and>
   inventory_by_type cell_T \<and>
   (\<exists>g'. has_Product cell_T (\<lambda>n. 3) = Inr (cell_T, None, g'))"
proof -
  have t: "inventory_by_type cell_T"
    by (simp add: inventory_by_type_def cell_T_def new_Cell_def)
  have uT: "usable_products cell_T = []" "pruned_products cell_T = []"
    by (simp_all add: usable_products_def pruned_products_def cell_T_def new_Cell_def)
  have cT: "cell_T\<lparr>products := []\<rparr> = cell_T"
    by (simp add: cell_T_def new_Cell_def)
  have hS: "has_rule cell_S (ByType 3) \<and> map_of (products cell_S) 3 = Some [token 3 3]"
    by (simp add: has_rule_def cell_S_def new_Cell_def)
  from has_Product_selects_token [OF inventory_by_type_cell_S, of "\<lambda>n. 3"]
  obtain res g' where
    r: "has_Product cell_S (\<lambda>n. 3) =
        Inr (cell_S\<lparr>products := pruned_products cell_S\<rparr>, res, g')"
    and s: "usable_products cell_S \<noteq> [] \<longrightarrow>
        res = Some (get_type (usable_products cell_S ! (3 mod length (usable_products cell_S))))"
    and p: "\<forall>t stack.
        has_rule cell_S (ByType t) \<and> map_of (products cell_S) t = Some stack \<longrightarrow>
        length (filter (\<lambda>p. get_type p = t) (usable_products cell_S)) = length stack \<and>
        uniform_prob (usable_products cell_S) (\<lambda>p. get_type p = t) =
          real (length stack) / real (length (usable_products cell_S))"
    by blast
  from s have res: "res = Some 3"
    by (simp add: usable_products_cell_S token_def get_type_def)
  from p hS have pr: "uniform_prob (usable_products cell_S) (\<lambda>p. get_type p = 3) =
      real (length [token 3 3]) / real (length (usable_products cell_S))"
    by blast
  from has_Product_selects_token [OF t, of "\<lambda>n. 3"]
  obtain res2 g2 where
    r2: "has_Product cell_T (\<lambda>n. 3) =
        Inr (cell_T\<lparr>products := pruned_products cell_T\<rparr>, res2, g2)"
    and s2: "usable_products cell_T = [] \<longrightarrow> res2 = None"
    by blast
  from s2 have res2: "res2 = None" by (simp add: uT)
  from r res have "\<exists>g'. has_Product cell_S (\<lambda>n. 3) =
     Inr (cell_S\<lparr>products :=
            [(1, [token 0 1, token 1 1, token 2 1]), (3, [token 3 3]), (7, [])]\<rparr>,
          Some 3, g')"
    by (simp add: pruned_products_cell_S)
  moreover from r2 res2 have "\<exists>g'. has_Product cell_T (\<lambda>n. 3) = Inr (cell_T, None, g')"
    by (simp add: uT cT)
  moreover from pr have "uniform_prob (usable_products cell_S) (\<lambda>p. get_type p = 3) = 1 / 4"
    by (simp add: usable_products_cell_S)
  ultimately show ?thesis using inventory_by_type_cell_S t by blast
qed


text \<open>
  The claim as first stated fails on the choice among the eligible types: a cell that
  stores three products of type 1 and one of type 3, with rules for both, returns type 1
  for three of the four draws.
\<close>

theorem has_Product_selects_token_counterexample:
  "has_rule cell_S (ByType 1) \<and> has_rule cell_S (ByType 3) \<and>
   fst (snd (projr (has_Product cell_S (\<lambda>n. 0)))) = Some 1 \<and>
   fst (snd (projr (has_Product cell_S (\<lambda>n. 1)))) = Some 1 \<and>
   fst (snd (projr (has_Product cell_S (\<lambda>n. 2)))) = Some 1 \<and>
   fst (snd (projr (has_Product cell_S (\<lambda>n. 3)))) = Some 3 \<and>
   uniform_prob (usable_products cell_S) (\<lambda>p. get_type p = 1) = 3 / 4 \<and>
   uniform_prob (usable_products cell_S) (\<lambda>p. get_type p = 3) = 1 / 4"
proof -
  have d: "distinct (map fst (products cell_S))"
    using inventory_by_type_cell_S by (simp add: inventory_by_type_def)
  have h: "has_rule cell_S (ByType 1)" "has_rule cell_S (ByType 3)"
    by (simp_all add: has_rule_def cell_S_def new_Cell_def)
  show ?thesis
    using h
    by (simp add: has_Product_result [OF d] usable_products_cell_S uniform_prob_def token_def
        get_type_def)
qed

text \<open>
  C1. On a network whose cells are well formed, \<^verbatim>\<open>reproduce_active_rule\<close> of a cell
  with an active rule raises nothing. It first appends one new rule instance, with the
  input and output type of the active rule, to the bucket of that type on the cell, so
  the cell has one instance and one count more; it then calls the network's
  \<^verbatim>\<open>remove_random_rule\<close> once, which removes one instance, the one the generator
  draws among the instances of the whole network (on any cell, the reproducing one
  included), through \<^verbatim>\<open>remove_ProductRule\<close> of the owning cell, which then has one
  instance and one count less. The number of rule instances of the network, and the
  sum of the rule counters, are after the call what they were before it.
\<close>

theorem reproduce_active_rule_conserves:
  assumes "net_wf w" and "self < length (cells w)"
    and "active_rule (cells w ! self) = Some r"
  shows "\<exists>c1 net1 owner rule c2 net2 w'.
     add_ProductRule (cells w ! self) (productRule_Net w)
       (RuleObj (new_ProductRule (next_ident w) (get_input r) (get_output r))) =
       Inr (c1, net1) \<and>
     lookup_bucket (product_rules c1) (get_input r) (get_output r) =
       Some (bucket_of (product_rules (cells w ! self)) (get_input r) (get_output r) @
             [new_ProductRule (next_ident w) (get_input r) (get_output r)]) \<and>
     length (all_rules c1) = length (all_rules (cells w ! self)) + 1 \<and>
     count_rules c1 = count_rules (cells w ! self) + 1 \<and>
     owner < length (cells w) \<and>
     rule \<in> set (all_rules ((cells w)[self := c1] ! owner)) \<and>
     (owner, rule) = network_rules ((cells w)[self := c1]) !
       (generator w 0 mod length (network_rules ((cells w)[self := c1]))) \<and>
     remove_ProductRule ((cells w)[self := c1] ! owner) net1 (master_count w) rule =
       Inr (c2, net2) \<and>
     length (all_rules c2) + 1 = length (all_rules ((cells w)[self := c1] ! owner)) \<and>
     count_rules c2 + 1 = count_rules ((cells w)[self := c1] ! owner) \<and>
     reproduce_active_rule w self = Inr w' \<and>
     cells w' = (cells w)[self := c1, owner := c2] \<and>
     total_rule_count w' = total_rule_count w \<and>
     total_count_rules w' = total_count_rules w"
proof -
  let ?new = "new_ProductRule (next_ident w) (get_input r) (get_output r)"
  from reproduce_steps [OF assms] obtain c1 net1 owner rule c2 net2 where
    ad: "add_ProductRule (cells w ! self) (productRule_Net w) (RuleObj ?new) = Inr (c1, net1)"
    and o: "owner < length (cells w)"
    and r: "rule \<in> set (all_rules ((cells w)[self := c1] ! owner))"
    and dr: "(owner, rule) = network_rules ((cells w)[self := c1]) !
       (generator w 0 mod length (network_rules ((cells w)[self := c1])))"
    and rm: "remove_ProductRule ((cells w)[self := c1] ! owner) net1 (master_count w) rule =
       Inr (c2, net2)"
    and c1: "cell_wf c1"
    and rp: "reproduce_active_rule w self =
       Inr ((reproduced w self c1 net1)
              \<lparr>cells := (cells w)[self := c1, owner := c2], productRule_Net := net2,
               generator := advance (generator w)\<rparr>)"
    by blast
  let ?w' = "(reproduced w self c1 net1)
              \<lparr>cells := (cells w)[self := c1, owner := c2], productRule_Net := net2,
               generator := advance (generator w)\<rparr>"
  have nm: "get_input ?new = get_input r" "get_output ?new = get_output r"
    by (simp_all add: new_ProductRule_def get_input_def get_output_def)
  from add_frame [OF ad]
  have lb: "lookup_bucket (product_rules c1) (get_input r) (get_output r) =
       Some (bucket_of (product_rules (cells w ! self)) (get_input r) (get_output r) @ [?new])"
    and k1: "count_rules c1 = count_rules (cells w ! self) + 1"
    by (simp_all add: nm)
  have l1: "length (all_rules c1) = length (all_rules (cells w ! self)) + 1"
    using ad by (rule add_all_rules_length)
  have wfo: "cell_wf ((cells w)[self := c1] ! owner)"
    using assms(1) c1 o by (cases "owner = self") (simp_all add: net_wf_def nth_list_update)
  then have "aggregates_match ((cells w)[self := c1] ! owner)" by (simp add: cell_wf_def)
  from remove_index_size [OF this rm]
  have l2: "length (all_rules c2) + 1 = length (all_rules ((cells w)[self := c1] ! owner))"
    by (simp add: length_all_rules)
  have k2: "count_rules c2 + 1 = count_rules ((cells w)[self := c1] ! owner)"
    using remove_frame [OF rm] by simp
  have cw: "cells ?w' = (cells w)[self := c1, owner := c2]" by simp
  from reproduce_totals [OF assms(2) o ad wfo rm cw refl]
  have t: "total_rule_count ?w' = total_rule_count w"
    "total_count_rules ?w' = total_count_rules w"
    by simp_all
  show ?thesis
    apply (rule exI [of _ c1], rule exI [of _ net1], rule exI [of _ owner], rule exI [of _ rule])
    apply (rule exI [of _ c2], rule exI [of _ net2], rule exI [of _ ?w'])
    using ad lb l1 k1 o r dr rm l2 k2 rp cw t
    apply (intro conjI)
    apply assumption+
    done
qed

theorem reproduce_active_rule_conserves_witness:
  "net_wf net_ST \<and> active_rule (cells net_ST ! 0) = Some rule_A1 \<and>
   total_rule_count net_ST = 5 \<and>
   (\<exists>w'. reproduce_active_rule net_ST 0 = Inr w' \<and>
      total_rule_count w' = 5 \<and> total_count_rules w' = total_count_rules net_ST)"
proof -
  have i: "0 < length (cells net_ST)" by (simp add: net_ST_def)
  have a: "active_rule (cells net_ST ! 0) = Some rule_A1"
    by (simp add: net_ST_def cell_S_def)
  have t: "total_rule_count net_ST = 5"
    by (simp add: total_rule_count_def net_ST_def all_rules_def rules_of_inner_def cell_S_def
        cell_T_def)
  from reproduce_active_rule_conserves [OF net_wf_net_ST i a] obtain w' where
    "reproduce_active_rule net_ST 0 = Inr w'" "total_rule_count w' = total_rule_count net_ST"
    "total_count_rules w' = total_count_rules net_ST"
    by blast
  with net_wf_net_ST a t show ?thesis by auto
qed

text \<open>
  C5 (as amended). On a network whose cells are well formed, let the receiving cell own
  a rule that accepts the type of the product. Under the policy "source", with an active
  rule on the sender, \<^verbatim>\<open>receive_product\<close> raises nothing and returns the network in
  which: one new instance of the sender's active rule is appended to its bucket on the
  sender (the cell \<open>c1\<close>); the instance at the drawn position of the instances of the whole
  network is then removed through its owner's \<^verbatim>\<open>remove_ProductRule\<close> (the cell \<open>c2\<close>: the
  extinction that is part of every reproduction); the sender's active rule is none; and
  the product is pushed on the stack of its type in the recipient's inventory. The rule
  index, the aggregate index and the counter of every cell are those of the cells after
  the reproduction and the extinction, so the sender holds the new instance unless the
  extinction fell on the sender itself. The recipient, when it is not itself the sender,
  gains no rule: its rule index, aggregate index and counter are unchanged unless the
  extinction draws one of its own instances, in which case they are what its own
  \<^verbatim>\<open>remove_ProductRule\<close> of that instance leaves. Under the policy "target" the
  recipient draws one of its rules that accept the type, a new instance of that rule is
  appended to its bucket on the recipient, the instance at the drawn position of the
  instances of the whole network is removed, the recipient's active rule is none
  afterwards, and the product is stored in the recipient's inventory. Under both policies
  the result is fixed in every field (cells, step counter, registry log, generator, next
  identity) and the number of rule instances of the network is unchanged.
\<close>

theorem receive_product_reproduces:
  assumes "net_wf w" and "sender < length (cells w)" and "self < length (cells w)"
    and "x \<in> set (all_rules (cells w ! self))" and "get_input x = get_type p"
  shows "has_rule (cells w ! self) (ByType (get_type p)) \<and>
   (repro_type (cells w ! self) = ''source'' \<and> active_rule (cells w ! sender) = Some r \<longrightarrow>
     (\<exists>c1 net1 owner rule c2 net2 w'.
        add_ProductRule (cells w ! sender) (productRule_Net w)
          (RuleObj (new_ProductRule (next_ident w) (get_input r) (get_output r))) =
          Inr (c1, net1) \<and>
        lookup_bucket (product_rules c1) (get_input r) (get_output r) =
          Some (bucket_of (product_rules (cells w ! sender)) (get_input r) (get_output r) @
                [new_ProductRule (next_ident w) (get_input r) (get_output r)]) \<and>
        owner < length (cells w) \<and>
        rule \<in> set (all_rules ((cells w)[sender := c1] ! owner)) \<and>
        (owner, rule) = network_rules ((cells w)[sender := c1]) !
          (generator w 0 mod length (network_rules ((cells w)[sender := c1]))) \<and>
        remove_ProductRule ((cells w)[sender := c1] ! owner) net1 (master_count w + 1) rule =
          Inr (c2, net2) \<and>
        receive_product w sender self p = Inr w' \<and>
        w' = w\<lparr>cells := received_cells (cells w) sender c1 owner c2 self p,
               master_count := master_count w + 1, last_added_rule := master_count w + 1,
               productRule_Net := net2, generator := advance (generator w),
               next_ident := Suc (next_ident w)\<rparr> \<and>
        length (cells w') = length (cells w) \<and>
        active_rule (cells w' ! sender) = None \<and>
        products (cells w' ! self) = products (add_Product (cells w ! self) p) \<and>
        (\<forall>j < length (cells w).
           product_rules (cells w' ! j) =
             product_rules ((cells w)[sender := c1, owner := c2] ! j) \<and>
           product_netrules (cells w' ! j) =
             product_netrules ((cells w)[sender := c1, owner := c2] ! j) \<and>
           count_rules (cells w' ! j) =
             count_rules ((cells w)[sender := c1, owner := c2] ! j)) \<and>
        (owner \<noteq> sender \<longrightarrow>
           product_rules (cells w' ! sender) = product_rules c1 \<and>
           lookup_bucket (product_rules (cells w' ! sender)) (get_input r) (get_output r) =
             Some (bucket_of (product_rules (cells w ! sender)) (get_input r) (get_output r) @
                   [new_ProductRule (next_ident w) (get_input r) (get_output r)])) \<and>
        (owner = sender \<longrightarrow> product_rules (cells w' ! sender) = product_rules c2) \<and>
        (sender \<noteq> self \<and> owner \<noteq> self \<longrightarrow>
           product_rules (cells w' ! self) = product_rules (cells w ! self) \<and>
           product_netrules (cells w' ! self) = product_netrules (cells w ! self) \<and>
           count_rules (cells w' ! self) = count_rules (cells w ! self)) \<and>
        (sender \<noteq> self \<and> owner = self \<longrightarrow>
           rule \<in> set (all_rules (cells w ! self)) \<and>
           remove_ProductRule (cells w ! self) net1 (master_count w + 1) rule = Inr (c2, net2) \<and>
           product_rules (cells w' ! self) = product_rules c2 \<and>
           product_netrules (cells w' ! self) = product_netrules c2 \<and>
           count_rules (cells w' ! self) = count_rules (cells w ! self) - 1) \<and>
        total_rule_count w' = total_rule_count w)) \<and>
   (repro_type (cells w ! self) = ''target'' \<longrightarrow>
     (\<exists>inner r c1 net1 owner rule c2 net2 w'.
     map_of (product_rules (cells w ! self)) (get_type p) = Some inner \<and>
     r = rules_of_inner inner ! (generator w 0 mod length (rules_of_inner inner)) \<and>
     get_random_rule_of_type (cells w ! self) (generator w) (get_type p) =
       Inr (r, advance (generator w)) \<and>
     r \<in> set (all_rules (cells w ! self)) \<and> get_input r = get_type p \<and>
     add_ProductRule ((cells w ! self)\<lparr>active_rule := Some r\<rparr>) (productRule_Net w)
       (RuleObj (new_ProductRule (next_ident w) (get_input r) (get_output r))) =
       Inr (c1, net1) \<and>
     lookup_bucket (product_rules c1) (get_input r) (get_output r) =
       Some (bucket_of (product_rules (cells w ! self)) (get_input r) (get_output r) @
             [new_ProductRule (next_ident w) (get_input r) (get_output r)]) \<and>
     owner < length (cells w) \<and>
     rule \<in> set (all_rules ((cells w)[self := c1] ! owner)) \<and>
     (owner, rule) = network_rules ((cells w)[self := c1]) !
       (generator w 1 mod length (network_rules ((cells w)[self := c1]))) \<and>
     remove_ProductRule ((cells w)[self := c1] ! owner) net1 (master_count w + 1) rule =
       Inr (c2, net2) \<and>
     receive_product w sender self p = Inr w' \<and>
     w' = w\<lparr>cells := received_cells
                       ((cells w)[self := (cells w ! self)\<lparr>active_rule := Some r\<rparr>])
                       self c1 owner c2 self p,
            master_count := master_count w + 1, last_added_rule := master_count w + 1,
            productRule_Net := net2, generator := advance (advance (generator w)),
            next_ident := Suc (next_ident w)\<rparr> \<and>
     length (cells w') = length (cells w) \<and>
     active_rule (cells w' ! self) = None \<and>
     products (cells w' ! self) = products (add_Product (cells w ! self) p) \<and>
     (\<forall>j < length (cells w).
        product_rules (cells w' ! j) = product_rules ((cells w)[self := c1, owner := c2] ! j) \<and>
        product_netrules (cells w' ! j) =
          product_netrules ((cells w)[self := c1, owner := c2] ! j) \<and>
        count_rules (cells w' ! j) = count_rules ((cells w)[self := c1, owner := c2] ! j)) \<and>
     (owner \<noteq> self \<longrightarrow>
        product_rules (cells w' ! self) = product_rules c1 \<and>
        lookup_bucket (product_rules (cells w' ! self)) (get_input r) (get_output r) =
          Some (bucket_of (product_rules (cells w ! self)) (get_input r) (get_output r) @
                [new_ProductRule (next_ident w) (get_input r) (get_output r)])) \<and>
     (owner = self \<longrightarrow> product_rules (cells w' ! self) = product_rules c2) \<and>
     total_rule_count w' = total_rule_count w))"
proof -
  from assms(1,3) have "cell_wf (cells w ! self)" by (simp add: net_wf_def)
  from accepting_rule [OF this assms(4)] assms(5)
  have hr: "has_rule (cells w ! self) (ByType (get_type p))" by simp
  show ?thesis
    apply (rule conjI)
     apply (rule hr)
    apply (rule conjI)
     apply (rule impI)
     apply (erule conjE)
     apply (rule receive_source_facts [OF assms(1-3) hr])
      apply assumption+
    apply (rule impI)
    apply (rule receive_target_facts [OF assms(1,3,4,5)])
    apply assumption
    done
qed

theorem receive_product_reproduces_witness:
  "net_wf net_ST \<and> rule_C1 \<in> set (all_rules (cells net_ST ! 1)) \<and>
   get_input rule_C1 = get_type (token 9 2) \<and>
   repro_type (cells net_ST ! 1) = ''source'' \<and> active_rule (cells net_ST ! 0) = Some rule_A1 \<and>
   (\<exists>w'. receive_product net_ST 0 1 (token 9 2) = Inr w' \<and>
      active_rule (cells w' ! 0) = None \<and>
      products (cells w' ! 1) = products (add_Product (cells net_ST ! 1) (token 9 2)) \<and>
      total_rule_count w' = total_rule_count net_ST \<and>
      product_rules (cells w' ! 0) =
        [(1, [(2, [rule_A2, rule_A3, new_ProductRule 5 1 2])]), (3, [(4, [rule_B1])])] \<and>
      product_rules (cells w' ! 1) = [(2, [(3, [rule_C1])])] \<and>
      products (cells w' ! 1) = [(2, [token 9 2])]) \<and>
   net_wf net_target \<and> rule_C1 \<in> set (all_rules (cells net_target ! 1)) \<and>
   repro_type (cells net_target ! 1) = ''target'' \<and>
   (\<exists>w'. receive_product net_target 0 1 (token 9 2) = Inr w' \<and>
      active_rule (cells w' ! 1) = None \<and>
      products (cells w' ! 1) = products (add_Product (cells net_target ! 1) (token 9 2)) \<and>
      total_rule_count w' = total_rule_count net_target \<and>
      product_rules (cells w' ! 1) = [(2, [(3, [rule_C1, new_ProductRule 5 2 3])])] \<and>
      product_rules (cells w' ! 0) = [(1, [(2, [rule_A2, rule_A3])]), (3, [(4, [rule_B1])])] \<and>
      products (cells w' ! 1) = [(2, [token 9 2])])"
proof -
  have s: "0 < length (cells net_ST)" and t: "1 < length (cells net_ST)"
    by (simp_all add: net_ST_def)
  have x: "rule_C1 \<in> set (all_rules (cells net_ST ! 1))"
    by (simp add: net_ST_def cell_T_def all_rules_def rules_of_inner_def)
  have xt: "get_input rule_C1 = get_type (token 9 2)"
    by (simp add: rule_C1_def get_input_def token_def get_type_def)
  have pol: "repro_type (cells net_ST ! 1) = ''source''"
    by (simp add: net_ST_def cell_T_def new_Cell_def)
  have a: "active_rule (cells net_ST ! 0) = Some rule_A1"
    by (simp add: net_ST_def cell_S_def)
  have wt: "net_wf net_target" by (rule net_wf_net_target)
  have s': "0 < length (cells net_target)" and t': "1 < length (cells net_target)"
    by (simp_all add: net_target_def)
  have x': "rule_C1 \<in> set (all_rules (cells net_target ! 1))"
    by (simp add: net_target_def cell_T_def all_rules_def rules_of_inner_def)
  have pol': "repro_type (cells net_target ! 1) = ''target''"
    by (simp add: net_target_def)
  from receive_product_reproduces [OF net_wf_net_ST s t x xt, of rule_A1] pol a
  obtain w1 where r1: "receive_product net_ST 0 1 (token 9 2) = Inr w1"
    and q1: "active_rule (cells w1 ! 0) = None"
      "products (cells w1 ! 1) = products (add_Product (cells net_ST ! 1) (token 9 2))"
      "total_rule_count w1 = total_rule_count net_ST"
    by blast
  have "\<exists>w'. receive_product net_ST 0 1 (token 9 2) = Inr w' \<and>
      product_rules (cells w' ! 0) =
        [(1, [(2, [rule_A2, rule_A3, new_ProductRule 5 1 2])]), (3, [(4, [rule_B1])])] \<and>
      product_rules (cells w' ! 1) = [(2, [(3, [rule_C1])])] \<and>
      products (cells w' ! 1) = [(2, [token 9 2])]"
    by (simp add: net_draw_def net_ST_def net_target_def cell_S_def cell_T_def new_Cell_def token_def get_type_def
      has_rule_def receive_product_def Let_def reproduce_active_rule_def reproduced_def
      add_ProductRule_def add_ProductNetRule_def add_to_count_def new_ProductRule_def
      get_input_def get_output_def get_name_def rule_A1_def rule_A2_def rule_A3_def rule_B1_def
      rule_C1_def aggregate_def remove_random_rule_def network_rules_def all_rules_def
      rules_of_inner_def sample1_def advance_def remove_ProductRule_def subtract_from_count_def
      assign_active_rule_def add_Product_def get_random_rule_of_type_def upt_rec)
  with r1 have e1: "product_rules (cells w1 ! 0) =
        [(1, [(2, [rule_A2, rule_A3, new_ProductRule 5 1 2])]), (3, [(4, [rule_B1])])]"
      "product_rules (cells w1 ! 1) = [(2, [(3, [rule_C1])])]"
      "products (cells w1 ! 1) = [(2, [token 9 2])]"
    by auto
  from receive_product_reproduces [OF wt s' t' x' xt, of rule_A1] pol'
  obtain w2 where r2: "receive_product net_target 0 1 (token 9 2) = Inr w2"
    and q2: "active_rule (cells w2 ! 1) = None"
      "products (cells w2 ! 1) = products (add_Product (cells net_target ! 1) (token 9 2))"
      "total_rule_count w2 = total_rule_count net_target"
    by blast
  have "\<exists>w'. receive_product net_target 0 1 (token 9 2) = Inr w' \<and>
      product_rules (cells w' ! 1) = [(2, [(3, [rule_C1, new_ProductRule 5 2 3])])] \<and>
      product_rules (cells w' ! 0) = [(1, [(2, [rule_A2, rule_A3])]), (3, [(4, [rule_B1])])] \<and>
      products (cells w' ! 1) = [(2, [token 9 2])]"
    by (simp add: net_draw_def net_ST_def net_target_def cell_S_def cell_T_def new_Cell_def token_def get_type_def
      has_rule_def receive_product_def Let_def reproduce_active_rule_def reproduced_def
      add_ProductRule_def add_ProductNetRule_def add_to_count_def new_ProductRule_def
      get_input_def get_output_def get_name_def rule_A1_def rule_A2_def rule_A3_def rule_B1_def
      rule_C1_def aggregate_def remove_random_rule_def network_rules_def all_rules_def
      rules_of_inner_def sample1_def advance_def remove_ProductRule_def subtract_from_count_def
      assign_active_rule_def add_Product_def get_random_rule_of_type_def upt_rec)
  with r2 have e2: "product_rules (cells w2 ! 1) = [(2, [(3, [rule_C1, new_ProductRule 5 2 3])])]"
      "product_rules (cells w2 ! 0) = [(1, [(2, [rule_A2, rule_A3])]), (3, [(4, [rule_B1])])]"
      "products (cells w2 ! 1) = [(2, [token 9 2])]"
    by auto
  from r1 q1 e1 have 1: "\<exists>w'. receive_product net_ST 0 1 (token 9 2) = Inr w' \<and>
      active_rule (cells w' ! 0) = None \<and>
      products (cells w' ! 1) = products (add_Product (cells net_ST ! 1) (token 9 2)) \<and>
      total_rule_count w' = total_rule_count net_ST \<and>
      product_rules (cells w' ! 0) =
        [(1, [(2, [rule_A2, rule_A3, new_ProductRule 5 1 2])]), (3, [(4, [rule_B1])])] \<and>
      product_rules (cells w' ! 1) = [(2, [(3, [rule_C1])])] \<and>
      products (cells w' ! 1) = [(2, [token 9 2])]"
    by (intro exI [of _ w1] conjI)
  from r2 q2 e2 have 2: "\<exists>w'. receive_product net_target 0 1 (token 9 2) = Inr w' \<and>
      active_rule (cells w' ! 1) = None \<and>
      products (cells w' ! 1) = products (add_Product (cells net_target ! 1) (token 9 2)) \<and>
      total_rule_count w' = total_rule_count net_target \<and>
      product_rules (cells w' ! 1) = [(2, [(3, [rule_C1, new_ProductRule 5 2 3])])] \<and>
      product_rules (cells w' ! 0) = [(1, [(2, [rule_A2, rule_A3])]), (3, [(4, [rule_B1])])] \<and>
      products (cells w' ! 1) = [(2, [token 9 2])]"
    by (intro exI [of _ w2] conjI)
  from net_wf_net_ST x xt pol a 1 wt x' pol' 2 show ?thesis by (intro conjI)
qed

text \<open>
  The claim as first stated fails on "the recipient reproduces nothing and its rule set
  is unchanged" under the policy "source" in two ways. When the extinction that follows
  the sender's reproduction draws the recipient's rule, the recipient loses it (here its
  only rule, so its index is empty afterwards), while the product is still stored. And
  when a cell passes a product to itself, the recipient is the sender: the new instance
  is appended to the recipient's own bucket by \<^verbatim>\<open>add_ProductRule\<close> (last conjunct)
  and its counter grows by one (the extinction falling on the other cell here).
\<close>

theorem receive_product_reproduces_counterexample:
  "has_rule (cells (net_draw 5) ! 1) (ByType (get_type (token 9 2))) \<and>
   repro_type (cells (net_draw 5) ! 1) = ''source'' \<and>
   active_rule (cells (net_draw 5) ! 0) = Some rule_A1 \<and>
   product_rules (cells (net_draw 5) ! 1) = [(2, [(3, [rule_C1])])] \<and>
   (\<exists>w'. receive_product (net_draw 5) 0 1 (token 9 2) = Inr w' \<and>
      product_rules (cells w' ! 1) = [] \<and>
      products (cells w' ! 1) = [(2, [token 9 2])]) \<and>
   has_rule (cells (net_draw 5) ! 0) (ByType (get_type (token 9 1))) \<and>
   repro_type (cells (net_draw 5) ! 0) = ''source'' \<and>
   product_rules (cells (net_draw 5) ! 0) =
     [(1, [(2, [rule_A1, rule_A2, rule_A3])]), (3, [(4, [rule_B1])])] \<and>
   (\<exists>w'. receive_product (net_draw 5) 0 0 (token 9 1) = Inr w' \<and>
      product_rules (cells w' ! 0) =
        [(1, [(2, [rule_A1, rule_A2, rule_A3, new_ProductRule 5 1 2])]), (3, [(4, [rule_B1])])] \<and>
      count_rules (cells w' ! 0) = count_rules (cells (net_draw 5) ! 0) + 1) \<and>
   (\<exists>c1 net1. add_ProductRule (cells (net_draw 5) ! 0) (productRule_Net (net_draw 5))
        (RuleObj (new_ProductRule (next_ident (net_draw 5)) (get_input rule_A1)
           (get_output rule_A1))) = Inr (c1, net1) \<and>
      product_rules c1 =
        [(1, [(2, [rule_A1, rule_A2, rule_A3, new_ProductRule 5 1 2])]), (3, [(4, [rule_B1])])])"
  by (simp add: net_draw_def net_ST_def net_target_def cell_S_def cell_T_def new_Cell_def token_def get_type_def
      has_rule_def receive_product_def Let_def reproduce_active_rule_def reproduced_def
      add_ProductRule_def add_ProductNetRule_def add_to_count_def new_ProductRule_def
      get_input_def get_output_def get_name_def rule_A1_def rule_A2_def rule_A3_def rule_B1_def
      rule_C1_def aggregate_def remove_random_rule_def network_rules_def all_rules_def
      rules_of_inner_def sample1_def advance_def remove_ProductRule_def subtract_from_count_def
      assign_active_rule_def add_Product_def get_random_rule_of_type_def upt_rec)

end
